theory Spec2Isabelle
  imports Main "HOL-Library.Sublist" "HOL-Library.Multiset" "HOL-Library.Word"
begin

section \<open>charmap: the token replacer, the file filter, the file task and the worker pool\<close>

text \<open>
  The development follows \<^verbatim>\<open>main.go\<close>. Go strings and byte slices are
  byte sequences: \<^typ>\<open>string\<close>. The map of values is taken in the order in which
  \<^verbatim>\<open>for k, v := range values\<close> happened to visit it, an association list: Go
  leaves that order open, and \<^verbatim>\<open>strings.NewReplacer\<close> compares old strings in
  argument order, so the order is an input of the model.
\<close>

subsection \<open>The part of package \<^verbatim>\<open>strings\<close> that the replacer calls\<close>

text \<open>
  \<^verbatim>\<open>strings.Index(s, substr)\<close>: the index of the first instance of
  \<^verbatim>\<open>substr\<close> in \<^verbatim>\<open>s\<close>, or \<^verbatim>\<open>-1\<close> (here \<open>None\<close>).
\<close>

fun Index :: "string \<Rightarrow> string \<Rightarrow> nat option" where
  "Index [] substr = (if substr = [] then Some 0 else None)"
| "Index (c # s) substr =
     (if prefix substr (c # s) then Some 0 else map_option Suc (Index s substr))"

text \<open>
  \<^verbatim>\<open>strings.NewReplacer(oldnew...).Replace(s)\<close>. The library documents:
  replacements are performed in the order they appear in the target string, without
  overlapping matches, and the old string comparisons are done in argument order.
  Its generic algorithm walks the string from the left; at each index \<open>lookup\<close>
  yields, among the old strings that are a prefix of the rest, the one given first;
  on a match the new string is written and the index moves past the old string,
  otherwise one byte is copied. An empty old string matches at every index, but
  not twice in a row at the same index (the flag \<^verbatim>\<open>prevMatchEmpty\<close>). The
  single-string and byte-table algorithms that the library picks for special
  argument lists compute the same result.
\<close>

fun lookup :: "(string \<times> string) list \<Rightarrow> bool \<Rightarrow> string \<Rightarrow> (string \<times> string) option" where
  "lookup [] ignoreRoot s = None"
| "lookup ((old, new) # oldnew) ignoreRoot s =
     (if prefix old s \<and> \<not> (ignoreRoot \<and> old = []) then Some (old, new)
      else lookup oldnew ignoreRoot s)"

function Replace :: "(string \<times> string) list \<Rightarrow> bool \<Rightarrow> string \<Rightarrow> string" where
  "Replace oldnew prevMatchEmpty s =
     (case lookup oldnew prevMatchEmpty s of
        Some (old, new) \<Rightarrow> new @ Replace oldnew (old = []) (drop (length old) s)
      | None \<Rightarrow> (case s of [] \<Rightarrow> [] | c # cs \<Rightarrow> c # Replace oldnew False cs))"
  by pat_completeness auto

lemma lookup_Some:
  "lookup oldnew ign s = Some (old, new) \<Longrightarrow>
     (old, new) \<in> set oldnew \<and> prefix old s \<and> \<not> (ign \<and> old = [])"
  by (induction oldnew) (auto split: if_splits)

termination Replace
proof (relation "measure (\<lambda>(oldnew, ign, s). 2 * length s + (if ign then 0 else 1))")
  show "wf (measure (\<lambda>(oldnew, ign, s). 2 * length s + (if ign then 0 else 1)))"
    by simp
next
  fix oldnew :: "(string \<times> string) list" and prevMatchEmpty s x2 x y
  assume "lookup oldnew prevMatchEmpty s = Some x2" and "(x, y) = x2"
  then have "lookup oldnew prevMatchEmpty s = Some (x, y)" by simp
  from lookup_Some [OF this]
  have "\<not> (prevMatchEmpty \<and> x = [])" and "prefix x s" by simp_all
  then show "((oldnew, x = [], drop (length x) s), (oldnew, prevMatchEmpty, s))
      \<in> measure (\<lambda>(oldnew, ign, s). 2 * length s + (if ign then 0 else 1))"
    by (cases x) (auto simp: prefix_def)
next
  fix oldnew :: "(string \<times> string) list" and prevMatchEmpty s x21 x22
  assume "s = x21 # x22"
  then show "((oldnew, False, x22), (oldnew, prevMatchEmpty, s))
      \<in> measure (\<lambda>(oldnew, ign, s). 2 * length s + (if ign then 0 else 1))"
    by simp
qed

declare Replace.simps [simp del]

subsection \<open>The token replacer\<close>

text \<open>
  Go errors are values built by \<^verbatim>\<open>fmt.Errorf\<close> and \<^verbatim>\<open>errors.Join\<close>; the
  model keeps their structure instead of the formatted message:
  \<open>NotSet k\<close> is \<^verbatim>\<open>env/flag "k" not set\<close>, \<open>PathError op p\<close> an error of
  package \<^verbatim>\<open>os\<close> or of the walk, \<open>FailedToProcess p e\<close> is
  \<^verbatim>\<open>failed to process "p": e\<close>, \<open>FailedToWalk d e\<close> is
  \<^verbatim>\<open>failed to walk directory "d": e\<close>, and \<open>NilDereference\<close> stands for the
  panic of a method call on a nil \<^verbatim>\<open>FileInfo\<close>.
\<close>

datatype error =
    NotSet string
  | PathError string string
  | FailedToProcess string error
  | FailedToWalk string error
  | Join "error list"
  | NilDereference

text \<open>
  \<^verbatim>\<open>buildNewReplacer(open, close, values)\<close> returns a closure; the model takes
  the closure's argument \<open>txt\<close> last. The Go result \<^verbatim>\<open>(nil, false, err)\<close> is
  \<open>Inl err\<close>, and \<^verbatim>\<open>(out, changed, nil)\<close> is \<open>Inr (out, changed)\<close>.
\<close>

definition pairs :: "string \<Rightarrow> string \<Rightarrow> (string \<times> string) list \<Rightarrow> (string \<times> string) list" where
  "pairs openStr closeStr values = map (\<lambda>(k, v). (openStr @ k @ closeStr, v)) values"

definition buildNewReplacer ::
  "string \<Rightarrow> string \<Rightarrow> (string \<times> string) list \<Rightarrow> string \<Rightarrow> error + (string \<times> bool)" where
  "buildNewReplacer openStr closeStr values txt =
     (let out = Replace (pairs openStr closeStr values) False txt;
          changed = (out \<noteq> txt)
      in case Index out openStr of
           Some idx \<Rightarrow>
             (let start = idx + length openStr
              in case Index (drop start out) closeStr of
                   Some end \<Rightarrow> Inl (NotSet (take end (drop start out)))
                 | None \<Rightarrow> Inr (out, changed))
         | None \<Rightarrow> Inr (out, changed))"

text \<open>
  The pairs that \<open>Replace\<close> substituted on \<open>s\<close>, in the order of the scan: the
  same recursion as \<open>Replace\<close>, recording each match instead of writing it. It
  makes "a substitution was performed" a statement about the run of the library
  call.
\<close>

lemma two_length: "a \<noteq> [] \<Longrightarrow> Suc 0 < 2 * length a"
  by (cases a) auto

function substituted :: "(string \<times> string) list \<Rightarrow> bool \<Rightarrow> string \<Rightarrow> (string \<times> string) list" where
  "substituted oldnew prevMatchEmpty s =
     (case lookup oldnew prevMatchEmpty s of
        Some (old, new) \<Rightarrow> (old, new) # substituted oldnew (old = []) (drop (length old) s)
      | None \<Rightarrow> (case s of [] \<Rightarrow> [] | c # cs \<Rightarrow> substituted oldnew False cs))"
  by pat_completeness auto

termination substituted
  by (relation "measure (\<lambda>(oldnew, ign, s). 2 * length s + (if ign then 0 else 1))")
     (auto dest!: lookup_Some simp: prefix_def two_length)

declare substituted.simps [simp del]

text \<open>
  A text holds an enclosed key when the open delimiter occurs in it and the close
  delimiter occurs somewhere after that occurrence.
\<close>

definition enclosed :: "string \<Rightarrow> string \<Rightarrow> string \<Rightarrow> bool" where
  "enclosed openStr closeStr s \<longleftrightarrow> (\<exists>a b c. s = a @ openStr @ b @ closeStr @ c)"

text \<open>
  The placeholder occurrences of a content as the specification describes them
  (section 4.2: a scan for non-overlapping occurrences of open ... close, the enclosed
  text being the key), which is also the scan of \<^verbatim>\<open>loopReplacer\<close> in the
  benchmark file: at an index where the open delimiter starts, the key runs to the
  first close delimiter after it and the scan goes on behind that close delimiter;
  an open delimiter with no close delimiter after it ends the scan. The delimiters
  are non-empty by the data model; with an empty open delimiter the scan yields no
  occurrence. This definition follows the specification's words, not
  \<^verbatim>\<open>buildNewReplacer\<close>.
\<close>

function spec_placeholders :: "string \<Rightarrow> string \<Rightarrow> string \<Rightarrow> string list" where
  "spec_placeholders openStr closeStr s =
     (if openStr = [] \<or> s = [] then []
      else if prefix openStr s then
        (case Index (drop (length openStr) s) closeStr of
           None \<Rightarrow> []
         | Some e \<Rightarrow> take e (drop (length openStr) s)
             # spec_placeholders openStr closeStr (drop (length openStr + e + length closeStr) s))
      else spec_placeholders openStr closeStr (tl s))"
  by pat_completeness auto

termination spec_placeholders
  by (relation "measure (\<lambda>(openStr, closeStr, s). length s)") (auto simp: two_length)

declare spec_placeholders.simps [simp del]

subsection \<open>The file filter\<close>

text \<open>
  A compiled \<^verbatim>\<open>*regexp.Regexp\<close> is used through \<^verbatim>\<open>MatchString\<close> only, so the
  model takes a compiled pattern to be that predicate on paths. For the two patterns
  of the specification's example, the fragment of the pattern syntax they use is modelled with the
  operators of \<^verbatim>\<open>regexp/syntax\<close>: \<open>ends r s i\<close> lists the indices at which a
  match of \<open>r\<close> that starts at index \<open>i\<close> of \<open>s\<close> can end, and
  \<open>MatchString\<close> holds when a match starts at some index (the patterns are not
  anchored unless they say so). Without flags \<^verbatim>\<open>.\<close> is any byte but a newline,
  and \<^verbatim>\<open>^\<close>, \<^verbatim>\<open>$\<close> are the begin and the end of the text.
\<close>

type_synonym Regexp = "string \<Rightarrow> bool"

datatype regex =
    EmptyMatch
  | Literal char
  | AnyCharNotNL
  | BeginText
  | EndText
  | Star regex
  | Quest regex
  | Concat regex regex
  | Alternate regex regex

fun closure :: "(nat \<Rightarrow> nat list) \<Rightarrow> nat \<Rightarrow> nat list \<Rightarrow> nat list" where
  "closure f 0 xs = xs"
| "closure f (Suc n) xs = xs @ closure f n (remdups (concat (map f xs)))"

primrec ends :: "regex \<Rightarrow> string \<Rightarrow> nat \<Rightarrow> nat list" where
  "ends EmptyMatch s i = [i]"
| "ends (Literal c) s i = (if i < length s \<and> s ! i = c then [Suc i] else [])"
| "ends AnyCharNotNL s i = (if i < length s \<and> s ! i \<noteq> CHR 0x0A then [Suc i] else [])"
| "ends BeginText s i = (if i = 0 then [i] else [])"
| "ends EndText s i = (if i = length s then [i] else [])"
| "ends (Star r) s i = closure (ends r s) (length s) [i]"
| "ends (Quest r) s i = i # ends r s i"
| "ends (Concat r1 r2) s i = concat (map (ends r2 s) (ends r1 s i))"
| "ends (Alternate r1 r2) s i = ends r1 s i @ ends r2 s i"

definition MatchString :: "regex \<Rightarrow> Regexp" where
  "MatchString r s = list_ex (\<lambda>i. ends r s i \<noteq> []) [0..<Suc (length s)]"

definition literals :: "string \<Rightarrow> regex" where
  "literals s = foldr (\<lambda>c r. Concat (Literal c) r) s EmptyMatch"

text \<open>The pattern \<^verbatim>\<open>.*\.yaml$\<close>.\<close>

definition yaml_pattern :: regex where
  "yaml_pattern = Concat (Star AnyCharNotNL) (Concat (literals ''.yaml'') EndText)"

text \<open>The pattern \<^verbatim>\<open>^\.git(/|$)\<close>, the default of the flag \<^verbatim>\<open>-ignore\<close>.\<close>

definition git_pattern :: regex where
  "git_pattern = Concat BeginText (Concat (literals ''.git'') (Alternate (Literal CHR ''/'') EndText))"

record fileFilter =
  "includes" :: "Regexp list"
  excludes :: "Regexp list"

text \<open>
  \<^verbatim>\<open>func (f *fileFilter) match(path string) bool\<close>: the two loops are
  recursions over the pattern lists, each returning at the first pattern that
  matches.
\<close>

fun any_match :: "Regexp list \<Rightarrow> string \<Rightarrow> bool" where
  "any_match [] path = False"
| "any_match (rx # rxs) path = (if rx path then True else any_match rxs path)"

definition match :: "fileFilter \<Rightarrow> string \<Rightarrow> bool" where
  "match f path =
     (if any_match (excludes f) path then False
      else if length (includes f) = 0 then True
      else if any_match (includes f) path then True
      else False)"


subsection \<open>The file task\<close>

text \<open>
  The file system as \<^verbatim>\<open>processFile\<close> sees it: the regular files by path, each
  with its bytes and its mode, the paths the system refuses to open for reading or
  for writing, and the umask. \<^verbatim>\<open>os.ReadFile\<close> fails on a missing or unreadable
  path. \<^verbatim>\<open>os.Stat\<close> yields the mode (its error is dropped by the caller, who then
  holds a nil \<^verbatim>\<open>FileInfo\<close>). \<^verbatim>\<open>os.WriteFile(name, data, perm)\<close> truncates an
  existing file and writes the data without changing its permissions, creates a
  missing file with \<open>perm\<close> before umask, and fails, leaving the file as it was,
  when the system refuses to open the path for writing. A write that fails half way
  is not modelled.
\<close>

type_synonym path = string

type_synonym FileMode = "32 word"

record osfile =
  bytes :: string
  mode :: FileMode

record filesys =
  files :: "path \<Rightarrow> osfile option"
  unreadable :: "path set"
  unwritable :: "path set"
  umask :: FileMode

definition os_ReadFile :: "filesys \<Rightarrow> path \<Rightarrow> error + string" where
  "os_ReadFile fs name =
     (case files fs name of
        None \<Rightarrow> Inl (PathError ''open'' name)
      | Some f \<Rightarrow> if name \<in> unreadable fs then Inl (PathError ''open'' name) else Inr (bytes f))"

definition os_Stat :: "filesys \<Rightarrow> path \<Rightarrow> FileMode option" where
  "os_Stat fs name = map_option mode (files fs name)"

definition os_WriteFile :: "filesys \<Rightarrow> path \<Rightarrow> string \<Rightarrow> FileMode \<Rightarrow> filesys \<times> error option" where
  "os_WriteFile fs name data perm =
     (if name \<in> unwritable fs then (fs, Some (PathError ''open'' name))
      else case files fs name of
        Some f \<Rightarrow> (fs\<lparr>files := (files fs)(name \<mapsto> f\<lparr>bytes := data\<rparr>)\<rparr>, None)
      | None \<Rightarrow>
          (fs\<lparr>files := (files fs)(name \<mapsto> \<lparr>bytes = data, mode = and perm (not (umask fs))\<rparr>)\<rparr>, None))"

type_synonym replacer = "string \<Rightarrow> error + (string \<times> bool)"

text \<open>
  \<^verbatim>\<open>processFile(path, replacer)\<close>, with the file system passed in and returned.
  The calls to \<^verbatim>\<open>slog\<close> write to the log only and are left out.
\<close>

definition processFile :: "path \<Rightarrow> replacer \<Rightarrow> filesys \<Rightarrow> filesys \<times> error option" where
  "processFile path replacer fs =
     (case os_ReadFile fs path of
        Inl err \<Rightarrow> (fs, Some err)
      | Inr inp \<Rightarrow>
          (let fi = os_Stat fs path
           in case replacer inp of
                Inl err \<Rightarrow> (fs, Some (FailedToProcess path err))
              | Inr (out, changed) \<Rightarrow>
                  if changed then
                    (case fi of
                       None \<Rightarrow> (fs, Some NilDereference)
                     | Some m \<Rightarrow> os_WriteFile fs path out m)
                  else (fs, None)))"


subsection \<open>The walk and the worker pool\<close>

text \<open>
  The part of \<^verbatim>\<open>config\<close> that \<^verbatim>\<open>processFiles\<close> reads. \<^verbatim>\<open>parseConfig\<close>
  rejects a worker count that is not positive, so \<open>Workers\<close> is a natural number
  and the theorems about runs assume it positive.
\<close>

record config =
  OpenDelim :: string
  CloseDelim :: string
  TargetDir :: string
  Workers :: nat
  FileFilter :: fileFilter
  KeyMap :: "(string \<times> string) list"

text \<open>
  \<^verbatim>\<open>filepath.WalkDir\<close> calls the function it is given once per entry it visits,
  with the path, whether the entry is a directory, and the error it met at that
  entry, if any. That sequence of visits is an input of the model. The function
  returns the error (and so ends the walk) when there is one, goes on when the entry
  is a directory or the filter rejects the path, and sends every other path to the
  channel. \<open>walked\<close> is the list of paths sent, in order, with the error of the
  walk.
\<close>

type_synonym visit = "path \<times> bool \<times> error option"

fun walked :: "fileFilter \<Rightarrow> visit list \<Rightarrow> path list \<times> error option" where
  "walked f [] = ([], None)"
| "walked f ((p, isDir, err) # vs) =
     (case err of
        Some e \<Rightarrow> ([], Some e)
      | None \<Rightarrow>
          if isDir then walked f vs
          else if \<not> match f p then walked f vs
          else (p # fst (walked f vs), snd (walked f vs)))"

text \<open>
  The state of a run of \<^verbatim>\<open>processFiles\<close>: the file system; the paths the walker
  has still to send; whether \<^verbatim>\<open>filepath.WalkDir\<close> has returned and its error, if
  any, is appended; whether the channel is closed; the buffer of the channel; where
  each worker goroutine stands; the slice \<^verbatim>\<open>errs\<close>. The field \<open>processed\<close>
  is a history variable: the calls of \<^verbatim>\<open>processFile\<close> that a worker has
  finished with, in that order, each with its path and the error it returned; no
  step reads it.

  A worker is idle (at the receive of its loop), or holds a path: received
  (\<open>Got\<close>), read (\<open>Loaded\<close>, with the bytes), stat'ed (\<open>Stated\<close>, with the
  bytes and the mode, or nothing where \<^verbatim>\<open>os.Stat\<close> failed), or back from
  \<^verbatim>\<open>processFile\<close> with its result (\<open>Returned\<close>); or it has left its loop.
\<close>

datatype worker =
    Idle
  | Got path
  | Loaded path string
  | Stated path string "FileMode option"
  | Returned path "error option"
  | Exited

record pool =
  fsys :: filesys
  tosend :: "path list"
  ended :: bool
  closed :: bool
  chan :: "path list"
  workers :: "worker list"
  errs :: "error list"
  processed :: "(path \<times> error option) list"

definition the_replacer :: "config \<Rightarrow> replacer" where
  "the_replacer cfg = buildNewReplacer (OpenDelim cfg) (CloseDelim cfg) (KeyMap cfg)"

definition init :: "config \<Rightarrow> visit list \<Rightarrow> filesys \<Rightarrow> pool" where
  "init cfg visits fs =
     \<lparr>fsys = fs, tosend = fst (walked (FileFilter cfg) visits), ended = False,
      closed = False, chan = [],
      workers = replicate (Workers cfg) Idle, errs = [], processed = []\<rparr>"

text \<open>
  What \<^verbatim>\<open>processFile\<close> does once \<^verbatim>\<open>os.ReadFile\<close> and \<^verbatim>\<open>os.Stat\<close> have
  returned: the lines from the call of the replacer to the end, on the file system
  as it then is.
\<close>

definition finish :: "path \<Rightarrow> replacer \<Rightarrow> string \<Rightarrow> FileMode option \<Rightarrow> filesys \<Rightarrow> filesys \<times> error option" where
  "finish path replacer inp fi fs =
     (case replacer inp of
        Inl err \<Rightarrow> (fs, Some (FailedToProcess path err))
      | Inr (out, changed) \<Rightarrow>
          if changed then
            (case fi of
               None \<Rightarrow> (fs, Some NilDereference)
             | Some m \<Rightarrow> os_WriteFile fs path out m)
          else (fs, None))"

text \<open>
  The goroutines synchronise through the channel and the mutex only, and touch the
  file system through system calls, so a run is an interleaving of these steps:
  the walker sends its next path, which needs room in the buffer of
  \<open>Workers * 2\<close> paths; the walker, with nothing left to send, appends the error of
  the walk, if any, under the lock; it closes the channel; an idle worker receives
  the first path
  of the buffer; a worker with a path calls \<^verbatim>\<open>os.ReadFile\<close>, and is back from
  \<^verbatim>\<open>processFile\<close> with the error if that fails; it calls \<^verbatim>\<open>os.Stat\<close>; it
  runs the replacer and, where that asks for it, \<^verbatim>\<open>os.WriteFile\<close>; back in its
  loop it appends the error, if any, under the lock and goes to receive again; an
  idle worker finds the channel closed and empty and leaves its loop.
\<close>

inductive step :: "config \<Rightarrow> error option \<Rightarrow> pool \<Rightarrow> pool \<Rightarrow> bool"
  for cfg :: config and walkErr :: "error option" where
  send: "\<not> closed s \<Longrightarrow> tosend s = p # ps \<Longrightarrow> length (chan s) < Workers cfg * 2 \<Longrightarrow>
     step cfg walkErr s (s\<lparr>tosend := ps, chan := chan s @ [p]\<rparr>)"
| walkend: "\<not> ended s \<Longrightarrow> tosend s = [] \<Longrightarrow>
     step cfg walkErr s
       (s\<lparr>ended := True,
          errs := errs s @ (case walkErr of None \<Rightarrow> [] | Some e \<Rightarrow> [FailedToWalk (TargetDir cfg) e])\<rparr>)"
| close: "ended s \<Longrightarrow> \<not> closed s \<Longrightarrow> step cfg walkErr s (s\<lparr>closed := True\<rparr>)"
| recv: "i < length (workers s) \<Longrightarrow> workers s ! i = Idle \<Longrightarrow> chan s = p # ps \<Longrightarrow>
     step cfg walkErr s (s\<lparr>chan := ps, workers := (workers s)[i := Got p]\<rparr>)"
| read: "i < length (workers s) \<Longrightarrow> workers s ! i = Got p \<Longrightarrow>
     step cfg walkErr s
       (s\<lparr>workers := (workers s)
          [i := (case os_ReadFile (fsys s) p of
                   Inl err \<Rightarrow> Returned p (Some err)
                 | Inr inp \<Rightarrow> Loaded p inp)]\<rparr>)"
| stat: "i < length (workers s) \<Longrightarrow> workers s ! i = Loaded p inp \<Longrightarrow>
     step cfg walkErr s (s\<lparr>workers := (workers s)[i := Stated p inp (os_Stat (fsys s) p)]\<rparr>)"
| rewrite: "i < length (workers s) \<Longrightarrow> workers s ! i = Stated p inp fi \<Longrightarrow>
     finish p (the_replacer cfg) inp fi (fsys s) = (fs', r) \<Longrightarrow>
     step cfg walkErr s (s\<lparr>fsys := fs', workers := (workers s)[i := Returned p r]\<rparr>)"
| report: "i < length (workers s) \<Longrightarrow> workers s ! i = Returned p r \<Longrightarrow>
     step cfg walkErr s
       (s\<lparr>errs := errs s @ (case r of None \<Rightarrow> [] | Some e \<Rightarrow> [FailedToProcess p e]),
          workers := (workers s)[i := Idle],
          processed := processed s @ [(p, r)]\<rparr>)"
| exit: "i < length (workers s) \<Longrightarrow> workers s ! i = Idle \<Longrightarrow> closed s \<Longrightarrow> chan s = [] \<Longrightarrow>
     step cfg walkErr s (s\<lparr>workers := (workers s)[i := Exited]\<rparr>)"

text \<open>
  \<^verbatim>\<open>wg.Wait()\<close> returns when every worker has left its loop; \<^verbatim>\<open>processFiles\<close>
  then returns \<^verbatim>\<open>errors.Join(errs...)\<close>, or nil when \<^verbatim>\<open>errs\<close> is empty.
\<close>

definition joined :: "pool \<Rightarrow> bool" where
  "joined s \<longleftrightarrow> list_all (\<lambda>w. w = Exited) (workers s)"

definition result :: "pool \<Rightarrow> error option" where
  "result s = (if length (errs s) > 0 then Some (Join (errs s)) else None)"

text \<open>
  \<open>returns cfg visits fs s\<close>: some run of \<^verbatim>\<open>processFiles(cfg)\<close> on the file
  system \<open>fs\<close>, the walk visiting \<open>visits\<close>, reaches the state \<open>s\<close> and returns
  there.
\<close>

definition returns :: "config \<Rightarrow> visit list \<Rightarrow> filesys \<Rightarrow> pool \<Rightarrow> bool" where
  "returns cfg visits fs s \<longleftrightarrow>
     (step cfg (snd (walked (FileFilter cfg) visits)))\<^sup>*\<^sup>* (init cfg visits fs) s \<and> joined s"


subsection \<open>Notions used to state and prove the properties of a run\<close>

text \<open>
  The paths the workers hold; the error \<^verbatim>\<open>failed to process "p": e\<close> that a
  worker appends for a call of \<^verbatim>\<open>processFile\<close> that returned \<open>e\<close>; the error
  the walker appends; the paths whose call of \<^verbatim>\<open>processFile\<close> is over; the
  invariant of a run over the paths \<open>P\<close> sent by the walker from the file system
  \<open>fs0\<close>; what a worker has in hand when every call sees its file as it is in
  \<open>fs0\<close>; and a measure that every step lowers.
\<close>

fun holding :: "worker \<Rightarrow> path multiset" where
  "holding Idle = {#}"
| "holding (Got p) = {#p#}"
| "holding (Loaded p inp) = {#p#}"
| "holding (Stated p inp fi) = {#p#}"
| "holding (Returned p r) = {#p#}"
| "holding Exited = {#}"

fun held :: "worker list \<Rightarrow> path multiset" where
  "held [] = {#}"
| "held (w # ws) = holding w + held ws"

definition wrapped :: "path \<times> error option \<Rightarrow> error list" where
  "wrapped pr = (case snd pr of None \<Rightarrow> [] | Some e \<Rightarrow> [FailedToProcess (fst pr) e])"

definition walk_errs :: "config \<Rightarrow> error option \<Rightarrow> error list" where
  "walk_errs cfg walkErr = (case walkErr of None \<Rightarrow> [] | Some e \<Rightarrow> [FailedToWalk (TargetDir cfg) e])"

definition returned :: "worker list \<Rightarrow> path set" where
  "returned ws = {p. \<exists>i r. i < length ws \<and> ws ! i = Returned p r}"

definition over :: "pool \<Rightarrow> path set" where
  "over s = fst ` set (processed s) \<union> returned (workers s)"

definition pool_inv :: "config \<Rightarrow> error option \<Rightarrow> path list \<Rightarrow> filesys \<Rightarrow> pool \<Rightarrow> bool" where
  "pool_inv cfg walkErr P fs0 s \<longleftrightarrow>
     mset (tosend s) + mset (chan s) + held (workers s) + mset (map fst (processed s)) = mset P \<and>
     mset (errs s) = mset (concat (map wrapped (processed s)))
        + (if ended s then mset (walk_errs cfg walkErr) else {#}) \<and>
     length (workers s) = Workers cfg \<and>
     (ended s \<longrightarrow> tosend s = []) \<and>
     (closed s \<longrightarrow> ended s) \<and>
     (Exited \<in> set (workers s) \<longrightarrow> closed s \<and> chan s = []) \<and>
     unreadable (fsys s) = unreadable fs0 \<and> unwritable (fsys s) = unwritable fs0 \<and>
     umask (fsys s) = umask fs0"

fun in_hand :: "config \<Rightarrow> filesys \<Rightarrow> worker \<Rightarrow> bool" where
  "in_hand cfg fs0 (Loaded p inp) \<longleftrightarrow> os_ReadFile fs0 p = Inr inp"
| "in_hand cfg fs0 (Stated p inp fi) \<longleftrightarrow> os_ReadFile fs0 p = Inr inp \<and> fi = os_Stat fs0 p"
| "in_hand cfg fs0 (Returned p r) \<longleftrightarrow> r = snd (processFile p (the_replacer cfg) fs0)"
| "in_hand cfg fs0 w \<longleftrightarrow> True"

definition pool_det :: "config \<Rightarrow> filesys \<Rightarrow> pool \<Rightarrow> bool" where
  "pool_det cfg fs0 s \<longleftrightarrow>
     (\<forall>(p, r) \<in> set (processed s). r = snd (processFile p (the_replacer cfg) fs0)) \<and>
     (\<forall>i < length (workers s). in_hand cfg fs0 (workers s ! i)) \<and>
     (\<forall>q. files (fsys s) q =
        (if q \<in> over s then files (fst (processFile q (the_replacer cfg) fs0)) q
         else files fs0 q))"

fun wcost :: "worker \<Rightarrow> nat" where
  "wcost Idle = 1"
| "wcost (Got p) = 5"
| "wcost (Loaded p inp) = 4"
| "wcost (Stated p inp fi) = 3"
| "wcost (Returned p r) = 2"
| "wcost Exited = 0"

definition cost :: "pool \<Rightarrow> nat" where
  "cost s = 6 * length (tosend s) + 5 * length (chan s) + sum_list (map wcost (workers s))
            + (if ended s then 0 else 1) + (if closed s then 0 else 1)"


section \<open>Properties\<close>

subsection \<open>\<open>Index\<close> finds the first occurrence\<close>

lemma Index_None_iff: "Index s p = None \<longleftrightarrow> \<not> sublist p s"
  by (induction s) (auto simp: sublist_Cons_right)

lemma Index_Some_prefix: "Index s p = Some i \<Longrightarrow> i \<le> length s \<and> prefix p (drop i s)"
  by (induction s arbitrary: i) (auto split: if_splits)

lemma Index_Some_least: "Index s p = Some i \<Longrightarrow> j < i \<Longrightarrow> \<not> prefix p (drop j s)"
proof (induction s arbitrary: i j)
  case Nil
  then show ?case by (auto split: if_splits)
next
  case (Cons c s)
  then show ?case by (cases j) (auto split: if_splits)
qed

lemma Index_Some_split:
  assumes "Index s p = Some i"
  shows "s = take i s @ p @ drop (i + length p) s"
proof -
  from Index_Some_prefix [OF assms] obtain r where r: "drop i s = p @ r"
    by (auto simp: prefix_def)
  then have "drop (i + length p) s = r"
    by (metis add.commute append_eq_conv_conj drop_drop)
  with r show ?thesis
    by (metis append_take_drop_id)
qed

lemma Index_le:
  assumes "Index s p = Some i" and "s = a @ p @ b"
  shows "i \<le> length a"
proof (rule ccontr)
  assume "\<not> i \<le> length a"
  then have "length a < i" by simp
  from Index_Some_least [OF assms(1) this] show False
    using assms(2) by simp
qed

subsection \<open>The check after the substitution\<close>

lemma unresolved_iff_enclosed:
  "(\<exists>idx e. Index s openStr = Some idx \<and> Index (drop (idx + length openStr) s) closeStr = Some e)
     \<longleftrightarrow> enclosed openStr closeStr s"
proof
  assume "\<exists>idx e. Index s openStr = Some idx \<and> Index (drop (idx + length openStr) s) closeStr = Some e"
  then obtain idx e where i: "Index s openStr = Some idx"
    and e: "Index (drop (idx + length openStr) s) closeStr = Some e" by blast
  let ?r = "drop (idx + length openStr) s"
  have "s = take idx s @ openStr @ ?r" by (rule Index_Some_split [OF i])
  moreover have "?r = take e ?r @ closeStr @ drop (e + length closeStr) ?r"
    by (rule Index_Some_split [OF e])
  ultimately have "s = take idx s @ openStr @ take e ?r @ closeStr @ drop (e + length closeStr) ?r"
    by simp
  then show "enclosed openStr closeStr s" unfolding enclosed_def by blast
next
  assume "enclosed openStr closeStr s"
  then obtain a b c where s: "s = a @ openStr @ b @ closeStr @ c"
    unfolding enclosed_def by blast
  then have "sublist openStr s" unfolding sublist_def by blast
  then obtain idx where i: "Index s openStr = Some idx"
    using Index_None_iff by (cases "Index s openStr") auto
  from Index_le [OF i s] have le: "idx \<le> length a" .
  have "drop (idx + length openStr) s = drop (idx + length openStr) (a @ openStr) @ b @ closeStr @ c"
    using s le by simp
  then have "sublist closeStr (drop (idx + length openStr) s)"
    unfolding sublist_def by (metis append.assoc)
  then obtain e where "Index (drop (idx + length openStr) s) closeStr = Some e"
    using Index_None_iff by (cases "Index (drop (idx + length openStr) s) closeStr") auto
  with i show "\<exists>idx e. Index s openStr = Some idx \<and> Index (drop (idx + length openStr) s) closeStr = Some e"
    by blast
qed

lemma replacer_Inr_iff:
  "buildNewReplacer openStr closeStr values txt = Inr (out, changed) \<longleftrightarrow>
     out = Replace (pairs openStr closeStr values) False txt \<and> changed = (out \<noteq> txt) \<and>
     \<not> enclosed openStr closeStr out"
proof -
  let ?out = "Replace (pairs openStr closeStr values) False txt"
  show ?thesis
    using unresolved_iff_enclosed [of ?out openStr closeStr]
    by (auto simp: buildNewReplacer_def Let_def split: option.splits)
qed

lemma replacer_Inl_iff:
  "(\<exists>e. buildNewReplacer openStr closeStr values txt = Inl e) \<longleftrightarrow>
     enclosed openStr closeStr (Replace (pairs openStr closeStr values) False txt)"
proof -
  let ?out = "Replace (pairs openStr closeStr values) False txt"
  show ?thesis
    using unresolved_iff_enclosed [of ?out openStr closeStr]
    by (auto simp: buildNewReplacer_def Let_def split: option.splits)
qed

lemma replacer_Inl_key:
  assumes "buildNewReplacer openStr closeStr values txt = Inl e"
  shows "\<exists>a key b. e = NotSet key \<and>
     Replace (pairs openStr closeStr values) False txt = a @ openStr @ key @ closeStr @ b \<and>
     Index (Replace (pairs openStr closeStr values) False txt) openStr = Some (length a) \<and>
     Index (key @ closeStr @ b) closeStr = Some (length key)"
proof -
  let ?out = "Replace (pairs openStr closeStr values) False txt"
  from assms obtain idx where i: "Index ?out openStr = Some idx"
    by (auto simp: buildNewReplacer_def Let_def split: option.splits)
  let ?r = "drop (idx + length openStr) ?out"
  from assms i obtain n where n: "Index ?r closeStr = Some n" and e: "e = NotSet (take n ?r)"
    by (auto simp: buildNewReplacer_def Let_def split: option.splits)
  have le: "idx \<le> length ?out" and ln: "n \<le> length ?r"
    using Index_Some_prefix [OF i] Index_Some_prefix [OF n] by simp_all
  have o: "?out = take idx ?out @ openStr @ ?r" by (rule Index_Some_split [OF i])
  have r: "?r = take n ?r @ closeStr @ drop (n + length closeStr) ?r"
    by (rule Index_Some_split [OF n])
  have "?out = take idx ?out @ openStr @ take n ?r @ closeStr @ drop (n + length closeStr) ?r"
    using o r by simp
  moreover have "Index ?out openStr = Some (length (take idx ?out))"
    using i le by simp
  moreover have "Index (take n ?r @ closeStr @ drop (n + length closeStr) ?r) closeStr
      = Some (length (take n ?r))"
    using n ln r by simp
  ultimately show ?thesis using e by blast
qed

lemma enclosedI: "s = a @ openStr @ b @ closeStr @ c \<Longrightarrow> enclosed openStr closeStr s"
  unfolding enclosed_def by blast

lemma replacer_enclosed_Inl:
  assumes "enclosed openStr closeStr (Replace (pairs openStr closeStr values) False txt)"
  shows "\<exists>a key b. buildNewReplacer openStr closeStr values txt = Inl (NotSet key) \<and>
     Replace (pairs openStr closeStr values) False txt = a @ openStr @ key @ closeStr @ b \<and>
     Index (Replace (pairs openStr closeStr values) False txt) openStr = Some (length a) \<and>
     Index (key @ closeStr @ b) closeStr = Some (length key)"
proof -
  from assms obtain e where "buildNewReplacer openStr closeStr values txt = Inl e"
    using replacer_Inl_iff by blast
  from replacer_Inl_key [OF this] this show ?thesis by blast
qed

lemma not_enclosed_by_Index:
  "Index s openStr = None \<or>
     (\<exists>idx. Index s openStr = Some idx \<and> Index (drop (idx + length openStr) s) closeStr = None)
   \<Longrightarrow> \<not> enclosed openStr closeStr s"
  using unresolved_iff_enclosed [of s openStr closeStr] by auto

lemma replacer_depends_on_output:
  assumes "Replace (pairs openStr closeStr values) False txt
         = Replace (pairs openStr closeStr values') False txt'"
  shows "buildNewReplacer openStr closeStr values txt = Inl e \<longleftrightarrow>
         buildNewReplacer openStr closeStr values' txt' = Inl e"
  using assms by (simp add: buildNewReplacer_def Let_def split: option.splits)

subsection \<open>The substitution pass\<close>

lemma lookup_None:
  "lookup oldnew ign s = None \<longleftrightarrow> (\<forall>(old, new) \<in> set oldnew. \<not> prefix old s \<or> (ign \<and> old = []))"
  by (induction oldnew) (auto split: if_splits)

lemma Replace_no_match:
  "\<forall>(old, new) \<in> set oldnew. \<not> sublist old s \<Longrightarrow> Replace oldnew ign s = s"
proof (induction oldnew ign s rule: Replace.induct)
  case (1 oldnew ign s)
  have none: "lookup oldnew ign s = None"
    using "1.prems" by (auto simp: lookup_None)
  show ?case
  proof (cases s)
    case Nil
    with none show ?thesis by (simp add: Replace.simps)
  next
    case (Cons c cs)
    have "\<forall>(old, new) \<in> set oldnew. \<not> sublist old cs"
      using "1.prems" Cons by (auto simp: sublist_Cons_right)
    from "1.IH"(1) [OF none Cons this] none Cons show ?thesis
      by (simp add: Replace.simps)
  qed
qed

lemma substituted_Nil_Replace:
  "substituted oldnew ign s = [] \<Longrightarrow> Replace oldnew ign s = s"
proof (induction oldnew ign s rule: Replace.induct)
  case (1 oldnew ign s)
  from "1.prems" have none: "lookup oldnew ign s = None"
    by (subst (asm) substituted.simps) (auto split: option.splits)
  show ?case
  proof (cases s)
    case Nil
    with none show ?thesis by (simp add: Replace.simps)
  next
    case (Cons c cs)
    from "1.prems" none Cons have "substituted oldnew False cs = []"
      by (subst (asm) substituted.simps) simp
    from "1.IH"(1) [OF none Cons this] none Cons show ?thesis
      by (simp add: Replace.simps)
  qed
qed

lemma substituted_sublist:
  "(old, new) \<in> set (substituted oldnew ign s) \<Longrightarrow> (old, new) \<in> set oldnew \<and> sublist old s"
proof (induction oldnew ign s rule: substituted.induct)
  case (1 oldnew ign s)
  show ?case
  proof (cases "lookup oldnew ign s")
    case None
    show ?thesis
    proof (cases s)
      case Nil
      with None "1.prems" show ?thesis by (subst (asm) substituted.simps) simp
    next
      case (Cons c cs)
      with None "1.prems" have "(old, new) \<in> set (substituted oldnew False cs)"
        by (subst (asm) substituted.simps) simp
      from "1.IH"(1) [OF None Cons this] Cons show ?thesis
        by (auto simp: sublist_Cons_right)
    qed
  next
    case (Some p)
    obtain old' new' where p: "p = (old', new')" by (cases p)
    from Some p have l: "lookup oldnew ign s = Some (old', new')" by simp
    from lookup_Some [OF l] have mem: "(old', new') \<in> set oldnew" and pre: "prefix old' s"
      by simp_all
    from "1.prems" l have "(old, new) = (old', new') \<or>
        (old, new) \<in> set (substituted oldnew (old' = []) (drop (length old') s))"
      by (subst (asm) substituted.simps) auto
    then show ?thesis
    proof
      assume "(old, new) = (old', new')"
      with mem pre show ?thesis by (auto intro: prefix_imp_sublist)
    next
      assume "(old, new) \<in> set (substituted oldnew (old' = []) (drop (length old') s))"
      from "1.IH"(2) [OF l refl this]
      have "(old, new) \<in> set oldnew" and "sublist old (drop (length old') s)" by simp_all
      moreover have "sublist (drop (length old') s) s"
        by (rule suffix_imp_sublist) (rule suffix_drop)
      ultimately show ?thesis by (auto intro: sublist_order.order_trans)
    qed
  qed
qed

lemma pairs_enclosed:
  assumes "(old, new) \<in> set (pairs openStr closeStr values)" and "sublist old s"
  shows "enclosed openStr closeStr s"
proof -
  from assms(1) obtain k where "old = openStr @ k @ closeStr"
    by (auto simp: pairs_def)
  with assms(2) show ?thesis
    unfolding enclosed_def sublist_def by (metis append.assoc)
qed

lemma occurrence_index:
  "s = a @ p @ b \<Longrightarrow> length a \<in> set (filter (\<lambda>i. prefix p (drop i s)) [0..<Suc (length s)])"
  by auto

lemma lookup_cong:
  "\<forall>(old, new) \<in> set oldnew. prefix old s \<longleftrightarrow> prefix old s'
     \<Longrightarrow> lookup oldnew ign s = lookup oldnew ign s'"
  by (induction oldnew) auto

lemma Replace_tail:
  assumes "\<forall>(old, new) \<in> set oldnew. old \<noteq> []"
    and "\<forall>(old, new) \<in> set oldnew. \<forall>a b. pre @ tail = a @ old @ b \<longrightarrow> length a + length old \<le> length pre"
  shows "Replace oldnew ign (pre @ tail) = Replace oldnew ign pre @ tail"
  using assms
proof (induction oldnew ign pre rule: Replace.induct)
  case (1 oldnew ign pre)
  have ne: "\<forall>(old, new) \<in> set oldnew. old \<noteq> []" by (rule "1.prems"(1))
  note occ = "1.prems"(2)
  have pre_iff: "prefix old (pre @ tail) \<longleftrightarrow> prefix old pre" if "(old, new) \<in> set oldnew" for old new
  proof
    assume "prefix old (pre @ tail)"
    then obtain b where b: "pre @ tail = [] @ old @ b" by (auto simp: prefix_def)
    from occ that b have "length old \<le> length pre" by fastforce
    with \<open>prefix old (pre @ tail)\<close> show "prefix old pre"
      by (metis prefix_length_prefix prefixI)
  next
    assume "prefix old pre" then show "prefix old (pre @ tail)" by simp
  qed
  have lk: "lookup oldnew ign (pre @ tail) = lookup oldnew ign pre"
    by (rule lookup_cong) (use pre_iff in blast)
  show ?case
  proof (cases "lookup oldnew ign pre")
    case None
    show ?thesis
    proof (cases pre)
      case Nil
      have "\<forall>(old, new) \<in> set oldnew. \<not> sublist old tail"
      proof (clarify)
        fix old new assume m: "(old, new) \<in> set oldnew" and "sublist old tail"
        then obtain a b where "tail = a @ old @ b" by (auto simp: sublist_def)
        with occ m Nil have "length a + length old \<le> 0" by fastforce
        with ne m show False by auto
      qed
      then have "Replace oldnew ign tail = tail" by (rule Replace_no_match)
      moreover have "Replace oldnew ign [] = []"
        using None Nil by (simp add: Replace.simps)
      ultimately show ?thesis using Nil by simp
    next
      case (Cons x xs)
      have "\<forall>(old, new) \<in> set oldnew. \<forall>a b. xs @ tail = a @ old @ b \<longrightarrow> length a + length old \<le> length xs"
      proof (clarify)
        fix old new a b assume m: "(old, new) \<in> set oldnew" and "xs @ tail = a @ old @ b"
        then have "pre @ tail = (x # a) @ old @ b" using Cons by simp
        with occ m have "length (x # a) + length old \<le> length pre" by blast
        then show "length a + length old \<le> length xs" using Cons by simp
      qed
      from "1.IH"(1) [OF None Cons ne this]
      have "Replace oldnew False (xs @ tail) = Replace oldnew False xs @ tail" .
      moreover have "Replace oldnew ign (pre @ tail) = x # Replace oldnew False (xs @ tail)"
        using lk None Cons by (subst Replace.simps) simp
      moreover have "Replace oldnew ign pre = x # Replace oldnew False xs"
        using None Cons by (subst Replace.simps) simp
      ultimately show ?thesis by simp
    qed
  next
    case (Some p)
    obtain old new where p: "p = (old, new)" by (cases p)
    with Some have l: "lookup oldnew ign pre = Some (old, new)" by simp
    from lookup_Some [OF l] have m: "(old, new) \<in> set oldnew" and pf: "prefix old pre" by simp_all
    then have len: "length old \<le> length pre" by (simp add: prefix_length_le)
    have "\<forall>(old', new') \<in> set oldnew. \<forall>a b. drop (length old) pre @ tail = a @ old' @ b
        \<longrightarrow> length a + length old' \<le> length (drop (length old) pre)"
    proof (clarify)
      fix old' new' a b assume m': "(old', new') \<in> set oldnew"
        and eq: "drop (length old) pre @ tail = a @ old' @ b"
      have "pre @ tail = (take (length old) pre @ a) @ old' @ b"
        using eq by (metis append.assoc append_take_drop_id)
      with occ m' have "length (take (length old) pre @ a) + length old' \<le> length pre"
        by blast
      then show "length a + length old' \<le> length (drop (length old) pre)"
        using len by simp
    qed
    from "1.IH"(2) [OF l refl ne this]
    have "Replace oldnew (old = []) (drop (length old) pre @ tail)
        = Replace oldnew (old = []) (drop (length old) pre) @ tail" .
    moreover have "Replace oldnew ign (pre @ tail)
        = new @ Replace oldnew (old = []) (drop (length old) pre @ tail)"
      using lk l len by (subst Replace.simps) simp
    moreover have "Replace oldnew ign pre = new @ Replace oldnew (old = []) (drop (length old) pre)"
      using l by (subst Replace.simps) simp
    ultimately show ?thesis by simp
  qed
qed

lemma close_before_tail:
  assumes "\<forall>a b. pre @ tail = a @ closeStr @ b \<longrightarrow> length a + length closeStr \<le> length pre"
  shows "Replace (pairs openStr closeStr values) ign (pre @ tail)
       = Replace (pairs openStr closeStr values) ign pre @ tail"
proof (cases "tail = []")
  case True
  then show ?thesis by simp
next
  case False
  have c: "closeStr \<noteq> []"
  proof
    assume "closeStr = []"
    then have "pre @ tail = (pre @ tail) @ closeStr @ []" by simp
    with assms have "length (pre @ tail) + length closeStr \<le> length pre" by blast
    with False show False by simp
  qed
  show ?thesis
  proof (rule Replace_tail)
    show "\<forall>(old, new) \<in> set (pairs openStr closeStr values). old \<noteq> []"
      using c by (auto simp: pairs_def)
  next
    show "\<forall>(old, new) \<in> set (pairs openStr closeStr values).
       \<forall>a b. pre @ tail = a @ old @ b \<longrightarrow> length a + length old \<le> length pre"
    proof (clarify)
      fix old new a b
      assume "(old, new) \<in> set (pairs openStr closeStr values)" and eq: "pre @ tail = a @ old @ b"
      then obtain k where k: "old = openStr @ k @ closeStr" by (auto simp: pairs_def)
      with eq have "pre @ tail = (a @ openStr @ k) @ closeStr @ b" by simp
      with assms have "length (a @ openStr @ k) + length closeStr \<le> length pre" by blast
      with k show "length a + length old \<le> length pre" by simp
    qed
  qed
qed



subsection \<open>The file filter and the file task\<close>

lemma any_match_iff: "any_match rxs path \<longleftrightarrow> (\<exists>rx \<in> set rxs. rx path)"
  by (induction rxs) auto

lemma os_WriteFile_frame:
  "os_WriteFile fs p d m = (fs', r) \<Longrightarrow>
     (\<forall>q. q \<noteq> p \<longrightarrow> files fs' q = files fs q) \<and>
     unreadable fs' = unreadable fs \<and> unwritable fs' = unwritable fs \<and> umask fs' = umask fs"
  by (auto simp: os_WriteFile_def split: if_splits option.splits)





lemma finish_frame:
  assumes "finish p R inp fi fs = (fs', r)"
  shows "(\<forall>q. q \<noteq> p \<longrightarrow> files fs' q = files fs q) \<and>
     unreadable fs' = unreadable fs \<and> unwritable fs' = unwritable fs \<and> umask fs' = umask fs"
  using assms os_WriteFile_frame [of fs p _ _ fs' r]
  by (auto simp: finish_def split: sum.splits if_splits option.splits prod.splits)

lemma processFile_finish:
  "processFile p R fs =
     (case os_ReadFile fs p of
        Inl err \<Rightarrow> (fs, Some err)
      | Inr inp \<Rightarrow> finish p R inp (os_Stat fs p) fs)"
  by (simp add: processFile_def finish_def Let_def split: sum.splits)

lemma finish_local:
  assumes "files fs p = files fs0 p" and "unwritable fs = unwritable fs0"
    and "umask fs = umask fs0"
  shows "snd (finish p R inp fi fs) = snd (finish p R inp fi fs0) \<and>
         files (fst (finish p R inp fi fs)) p = files (fst (finish p R inp fi fs0)) p"
  using assms
  by (auto simp: finish_def os_WriteFile_def split: sum.splits if_splits option.splits prod.splits)

lemma os_ReadFile_local:
  "files fs p = files fs0 p \<Longrightarrow> unreadable fs = unreadable fs0 \<Longrightarrow>
     os_ReadFile fs p = os_ReadFile fs0 p"
  by (auto simp: os_ReadFile_def split: option.splits)

lemma os_Stat_local: "files fs p = files fs0 p \<Longrightarrow> os_Stat fs p = os_Stat fs0 p"
  by (simp add: os_Stat_def)


lemma processFile_no_panic:
  "snd (processFile p (buildNewReplacer openStr closeStr values) fs) \<noteq> Some NilDereference"
  by (auto simp: processFile_def os_ReadFile_def os_Stat_def os_WriteFile_def Let_def
      split: sum.splits if_splits option.splits prod.splits)




subsection \<open>Runs of the worker pool\<close>

lemma held_update:
  "i < length ws \<Longrightarrow> held (ws[i := x]) + holding (ws ! i) = held ws + holding x"
proof (induction ws arbitrary: i)
  case Nil
  then show ?case by simp
next
  case (Cons w ws)
  show ?case
  proof (cases i)
    case 0
    then show ?thesis by simp
  next
    case (Suc j)
    with Cons.prems have "j < length ws" by simp
    from Cons.IH [OF this] Suc show ?thesis by (simp add: ac_simps)
  qed
qed

lemma held_same:
  assumes "i < length ws" and "holding x = holding (ws ! i)"
  shows "held (ws[i := x]) = held ws"
  using held_update [OF assms(1), of x] assms(2) by simp

lemma held_replicate_Idle: "held (replicate n Idle) = {#}"
  by (induction n) auto

lemma held_all_Exited: "list_all (\<lambda>w. w = Exited) ws \<Longrightarrow> held ws = {#}"
  by (induction ws) auto

lemma Exited_update:
  "Exited \<in> set (ws[i := x]) \<Longrightarrow> x \<noteq> Exited \<Longrightarrow> Exited \<in> set ws"
  using set_update_subset_insert [of ws i x] by auto

lemma pool_inv_init:
  "pool_inv cfg walkErr (fst (walked (FileFilter cfg) visits)) fs (init cfg visits fs)"
  by (simp add: pool_inv_def init_def held_replicate_Idle)

lemma pool_inv_step:
  assumes "step cfg walkErr s s'" and "pool_inv cfg walkErr P fs0 s"
  shows "pool_inv cfg walkErr P fs0 s'"
  using assms(1)
proof (cases rule: step.cases)
  case (send p ps)
  with assms(2) show ?thesis
    by (auto simp: pool_inv_def)
next
  case walkend
  with assms(2) show ?thesis
    by (auto simp: pool_inv_def walk_errs_def)
next
  case close
  with assms(2) show ?thesis
    by (auto simp: pool_inv_def)
next
  case (recv i p ps)
  from held_update [OF recv(2), of "Got p"] recv(3)
  have h: "held ((workers s)[i := Got p]) = held (workers s) + {#p#}" by simp
  have ne: "Exited \<notin> set ((workers s)[i := Got p])"
  proof
    assume "Exited \<in> set ((workers s)[i := Got p])"
    then have "Exited \<in> set (workers s)" by (rule Exited_update) simp
    with assms(2) recv(4) show False by (simp add: pool_inv_def)
  qed
  from assms(2) recv h ne show ?thesis
    by (simp add: pool_inv_def)
next
  case (read i p)
  let ?w = "case os_ReadFile (fsys s) p of Inl err \<Rightarrow> Returned p (Some err) | Inr inp \<Rightarrow> Loaded p inp"
  have hw: "holding ?w = holding (workers s ! i)" and nw: "?w \<noteq> Exited"
    using read(3) by (simp_all split: sum.splits)
  from held_same [OF read(2) hw] have h: "held ((workers s)[i := ?w]) = held (workers s)" .
  have ex: "Exited \<in> set ((workers s)[i := ?w]) \<Longrightarrow> Exited \<in> set (workers s)"
    using Exited_update [of "workers s" i ?w] nw by simp
  from assms(2) read(1) h ex show ?thesis
    by (auto simp: pool_inv_def)
next
  case (stat i p inp)
  let ?w = "Stated p inp (os_Stat (fsys s) p)"
  from held_same [OF stat(2), of ?w] stat(3)
  have h: "held ((workers s)[i := ?w]) = held (workers s)" by simp
  have ex: "Exited \<in> set ((workers s)[i := ?w]) \<Longrightarrow> Exited \<in> set (workers s)"
    using Exited_update [of "workers s" i ?w] by simp
  from assms(2) stat(1) h ex show ?thesis
    by (auto simp: pool_inv_def)
next
  case (rewrite i p inp fi fs' r)
  let ?w = "Returned p r"
  from held_same [OF rewrite(2), of ?w] rewrite(3)
  have h: "held ((workers s)[i := ?w]) = held (workers s)" by simp
  have ex: "Exited \<in> set ((workers s)[i := ?w]) \<Longrightarrow> Exited \<in> set (workers s)"
    using Exited_update [of "workers s" i ?w] by simp
  note fr = finish_frame [OF rewrite(4)]
  from assms(2) rewrite(1) h ex fr show ?thesis
    by (auto simp: pool_inv_def)
next
  case (report i p r)
  from held_update [OF report(2), of Idle] report(3)
  have h: "held ((workers s)[i := Idle]) + {#p#} = held (workers s)" by simp
  have ex: "Exited \<in> set ((workers s)[i := Idle]) \<Longrightarrow> Exited \<in> set (workers s)"
    using Exited_update [of "workers s" i Idle] by simp
  have "mset (tosend s) + mset (chan s) + held ((workers s)[i := Idle])
          + mset (map fst (processed s @ [(p, r)]))
       = mset (tosend s) + mset (chan s) + (held ((workers s)[i := Idle]) + {#p#})
          + mset (map fst (processed s))"
    by simp
  also have "\<dots> = mset P" using assms(2) h by (simp add: pool_inv_def)
  finally have m: "mset (tosend s) + mset (chan s) + held ((workers s)[i := Idle])
          + mset (map fst (processed s @ [(p, r)])) = mset P" .
  have e: "mset (errs s @ (case r of None \<Rightarrow> [] | Some e \<Rightarrow> [FailedToProcess p e]))
      = mset (concat (map wrapped (processed s @ [(p, r)])))
        + (if ended s then mset (walk_errs cfg walkErr) else {#})"
    using assms(2) by (simp add: pool_inv_def wrapped_def split: option.splits)
  from assms(2) report(1) m e ex show ?thesis
    by (simp add: pool_inv_def)
next
  case (exit i)
  from held_update [OF exit(2), of Exited] exit(3)
  have h: "held ((workers s)[i := Exited]) = held (workers s)" by simp
  from assms(2) exit h show ?thesis
    by (auto simp: pool_inv_def)
qed

lemma pool_inv_steps:
  assumes "(step cfg walkErr)\<^sup>*\<^sup>* s s'" and "pool_inv cfg walkErr P fs0 s"
  shows "pool_inv cfg walkErr P fs0 s'"
  using assms by (induction rule: rtranclp_induct) (auto intro: pool_inv_step)

lemma wcost_update:
  "i < length ws \<Longrightarrow>
     sum_list (map wcost (ws[i := x])) + wcost (ws ! i) = sum_list (map wcost ws) + wcost x"
proof (induction ws arbitrary: i)
  case Nil
  then show ?case by simp
next
  case (Cons w ws)
  show ?case
  proof (cases i)
    case 0
    then show ?thesis by simp
  next
    case (Suc j)
    with Cons.prems have "j < length ws" by simp
    from Cons.IH [OF this] Suc show ?thesis by simp
  qed
qed

lemma step_cost:
  assumes "step cfg walkErr s s'"
  shows "cost s' < cost s"
  using assms
proof (cases rule: step.cases)
  case (send p ps)
  then show ?thesis by (simp add: cost_def)
next
  case walkend
  then show ?thesis by (simp add: cost_def)
next
  case close
  then show ?thesis by (simp add: cost_def)
next
  case (recv i p ps)
  from wcost_update [OF recv(2), of "Got p"] recv show ?thesis
    by (simp add: cost_def)
next
  case (read i p)
  let ?w = "case os_ReadFile (fsys s) p of Inl err \<Rightarrow> Returned p (Some err) | Inr inp \<Rightarrow> Loaded p inp"
  have "wcost ?w < 5" by (simp split: sum.splits)
  with wcost_update [OF read(2), of ?w] read show ?thesis
    by (simp add: cost_def)
next
  case (stat i p inp)
  from wcost_update [OF stat(2), of "Stated p inp (os_Stat (fsys s) p)"] stat show ?thesis
    by (simp add: cost_def)
next
  case (rewrite i p inp fi fs' r)
  from wcost_update [OF rewrite(2), of "Returned p r"] rewrite show ?thesis
    by (simp add: cost_def)
next
  case (report i p r)
  from wcost_update [OF report(2), of Idle] report show ?thesis
    by (simp add: cost_def)
next
  case (exit i)
  from wcost_update [OF exit(2), of Exited] exit show ?thesis
    by (simp add: cost_def)
qed

lemma not_joined_worker:
  assumes "\<not> joined s"
  shows "\<exists>i < length (workers s). workers s ! i \<noteq> Exited"
  using assms unfolding joined_def list_all_length by blast

lemma progress:
  assumes "\<not> joined s" and "0 < Workers cfg"
  shows "\<exists>s'. step cfg walkErr s s'"
proof -
  from not_joined_worker [OF assms(1)]
  obtain i where i: "i < length (workers s)" and w: "workers s ! i \<noteq> Exited" by blast
  show ?thesis
  proof (cases "workers s ! i")
    case (Got p)
    from step.read [OF i Got] show ?thesis by blast
  next
    case (Loaded p inp)
    from step.stat [OF i Loaded] show ?thesis by blast
  next
    case (Stated p inp fi)
    obtain fs' r where "finish p (the_replacer cfg) inp fi (fsys s) = (fs', r)"
      by (cases "finish p (the_replacer cfg) inp fi (fsys s)")
    from step.rewrite [OF i Stated this] show ?thesis by blast
  next
    case (Returned p r)
    from step.report [OF i Returned] show ?thesis by blast
  next
    case Exited
    with w show ?thesis by simp
  next
    case Idle
    show ?thesis
    proof (cases "chan s")
      case (Cons p ps)
      from step.recv [OF i Idle Cons] show ?thesis by blast
    next
      case Nil
      show ?thesis
      proof (cases "closed s")
        case True
        from step.exit [OF i Idle True Nil] show ?thesis by blast
      next
        case False
        show ?thesis
        proof (cases "tosend s")
          case Nil
          show ?thesis
          proof (cases "ended s")
            case True
            from step.close [OF True False] show ?thesis by blast
          next
            case notended: False
            from step.walkend [OF notended Nil] show ?thesis by blast
          qed
        next
          case (Cons p ps)
          have "length (chan s) < Workers cfg * 2"
            using \<open>chan s = []\<close> assms(2) by simp
          from step.send [OF False Cons this] show ?thesis by blast
        qed
      qed
    qed
  qed
qed

lemma run_completes:
  assumes "0 < Workers cfg"
  shows "\<exists>s'. (step cfg walkErr)\<^sup>*\<^sup>* s s' \<and> joined s'"
proof (induction "cost s" arbitrary: s rule: less_induct)
  case less
  show ?case
  proof (cases "joined s")
    case True
    then show ?thesis by blast
  next
    case False
    from progress [OF False assms] obtain s1 where s1: "step cfg walkErr s s1" by blast
    from less [OF step_cost [OF s1]]
    obtain s' where "(step cfg walkErr)\<^sup>*\<^sup>* s1 s'" and "joined s'" by blast
    with s1 show ?thesis
      by (meson converse_rtranclp_into_rtranclp)
  qed
qed

lemma returns_exists:
  "0 < Workers cfg \<Longrightarrow> \<exists>s. returns cfg visits fs s"
  unfolding returns_def by (rule run_completes)

lemma joined_no_step:
  assumes "joined s" and "pool_inv cfg walkErr P fs0 s" and "0 < Workers cfg"
  shows "\<not> step cfg walkErr s s'"
proof
  assume st: "step cfg walkErr s s'"
  have all: "\<And>i. i < length (workers s) \<Longrightarrow> workers s ! i = Exited"
    using assms(1) unfolding joined_def list_all_length by blast
  from assms(2,3) have "0 < length (workers s)" by (simp add: pool_inv_def)
  with all have "Exited \<in> set (workers s)" by (metis nth_mem)
  with assms(2) have c: "closed s" and e: "ended s" by (simp_all add: pool_inv_def)
  from st show False
    by (cases rule: step.cases) (use all c e in auto)
qed

lemma held_nth: "i < length ws \<Longrightarrow> holding (ws ! i) \<subseteq># held ws"
proof (induction ws arbitrary: i)
  case Nil
  then show ?case by simp
next
  case (Cons w ws)
  show ?case
  proof (cases i)
    case 0
    then show ?thesis by simp
  next
    case (Suc j)
    with Cons.prems have "holding (ws ! j) \<subseteq># held ws" by (simp add: Cons.IH)
    with Suc show ?thesis by (simp add: subset_mset.add_increasing)
  qed
qed

lemma holder_unique:
  assumes "pool_inv cfg walkErr P fs0 s" and "distinct P"
    and "i < length (workers s)" and "p \<in># holding (workers s ! i)"
  shows "p \<notin> fst ` set (processed s)"
    and "\<And>j. j < length (workers s) \<Longrightarrow> j \<noteq> i \<Longrightarrow> p \<notin># holding (workers s ! j)"
proof -
  let ?ws = "workers s"
  from assms(1) have P: "mset P = mset (tosend s) + mset (chan s) + held ?ws
      + mset (map fst (processed s))"
    by (simp add: pool_inv_def)
  from assms(2) have c: "count (mset P) p \<le> 1"
    by (simp add: distinct_count_atmost_1)
  from held_update [OF assms(3), of Idle]
  have split: "held ?ws = held (?ws[i := Idle]) + holding (?ws ! i)" by simp
  from assms(4) have ci: "0 < count (holding (?ws ! i)) p"
    by (simp only: count_greater_zero_iff)
  show "p \<notin> fst ` set (processed s)"
  proof
    assume "p \<in> fst ` set (processed s)"
    then have "p \<in># mset (map fst (processed s))" by simp
    then have "0 < count (mset (map fst (processed s))) p"
      by (simp only: count_greater_zero_iff)
    moreover from P have "count (mset P) p = count (mset (tosend s)) p + count (mset (chan s)) p
        + count (held ?ws) p + count (mset (map fst (processed s))) p"
      by simp
    moreover from split have "count (held ?ws) p
        = count (held (?ws[i := Idle])) p + count (holding (?ws ! i)) p"
      by simp
    ultimately show False using c ci by linarith
  qed
  fix j assume j: "j < length ?ws" and ne: "j \<noteq> i"
  show "p \<notin># holding (?ws ! j)"
  proof
    assume "p \<in># holding (?ws ! j)"
    moreover from j ne have "(?ws[i := Idle]) ! j = ?ws ! j" by simp
    moreover from j have "holding ((?ws[i := Idle]) ! j) \<subseteq># held (?ws[i := Idle])"
      by (intro held_nth) simp
    ultimately have "p \<in># held (?ws[i := Idle])"
      by (metis mset_subset_eqD)
    then have "0 < count (held (?ws[i := Idle])) p"
      by (simp only: count_greater_zero_iff)
    moreover from P have "count (mset P) p = count (mset (tosend s)) p + count (mset (chan s)) p
        + count (held ?ws) p + count (mset (map fst (processed s))) p"
      by simp
    moreover from split have "count (held ?ws) p
        = count (held (?ws[i := Idle])) p + count (holding (?ws ! i)) p"
      by simp
    ultimately show False using c ci by linarith
  qed
qed

lemma returned_update:
  assumes "i < length ws"
  shows "returned (ws[i := w]) =
      {q. \<exists>j r. j < length ws \<and> j \<noteq> i \<and> ws ! j = Returned q r}
      \<union> (case w of Returned q r \<Rightarrow> {q} | _ \<Rightarrow> {})"
proof (rule set_eqI)
  fix q
  show "q \<in> returned (ws[i := w]) \<longleftrightarrow>
      q \<in> {q. \<exists>j r. j < length ws \<and> j \<noteq> i \<and> ws ! j = Returned q r}
      \<union> (case w of Returned q r \<Rightarrow> {q} | _ \<Rightarrow> {})"
  proof
    assume "q \<in> returned (ws[i := w])"
    then obtain j r where j: "j < length ws" and r: "(ws[i := w]) ! j = Returned q r"
      by (auto simp: returned_def)
    show "q \<in> {q. \<exists>j r. j < length ws \<and> j \<noteq> i \<and> ws ! j = Returned q r}
      \<union> (case w of Returned q r \<Rightarrow> {q} | _ \<Rightarrow> {})"
    proof (cases "j = i")
      case True
      with r assms have "w = Returned q r" by simp
      then show ?thesis by simp
    next
      case False
      with r j have "ws ! j = Returned q r" by simp
      with j False show ?thesis by blast
    qed
  next
    assume "q \<in> {q. \<exists>j r. j < length ws \<and> j \<noteq> i \<and> ws ! j = Returned q r}
      \<union> (case w of Returned q r \<Rightarrow> {q} | _ \<Rightarrow> {})"
    then consider (other) j r where "j < length ws" "j \<noteq> i" "ws ! j = Returned q r"
      | (this) "q \<in> (case w of Returned q r \<Rightarrow> {q} | _ \<Rightarrow> {})" by blast
    then show "q \<in> returned (ws[i := w])"
    proof cases
      case other
      then have "j < length (ws[i := w])" and "(ws[i := w]) ! j = Returned q r" by simp_all
      then show ?thesis unfolding returned_def by blast
    next
      case this
      then obtain r where "w = Returned q r" by (cases w) auto
      with assms have "i < length (ws[i := w])" and "(ws[i := w]) ! i = Returned q r" by simp_all
      then show ?thesis unfolding returned_def by blast
    qed
  qed
qed

lemma returned_split:
  assumes "i < length ws"
  shows "returned ws =
      {q. \<exists>j r. j < length ws \<and> j \<noteq> i \<and> ws ! j = Returned q r}
      \<union> (case ws ! i of Returned q r \<Rightarrow> {q} | _ \<Rightarrow> {})"
  using returned_update [OF assms, of "ws ! i"] by simp

lemma returned_same:
  assumes "i < length ws"
    and "(case w of Returned q r \<Rightarrow> {q} | _ \<Rightarrow> {}) = (case ws ! i of Returned q r \<Rightarrow> {q} | _ \<Rightarrow> {})"
  shows "returned (ws[i := w]) = returned ws"
  using returned_update [OF assms(1), of w] returned_split [OF assms(1)] assms(2) by simp

lemma returned_insert:
  assumes "i < length ws" and "(case ws ! i of Returned q r \<Rightarrow> {q} | _ \<Rightarrow> {}) = {}"
  shows "returned (ws[i := Returned p r]) = insert p (returned ws)"
  using returned_update [OF assms(1), of "Returned p r"] returned_split [OF assms(1)] assms(2)
  by simp

lemma holder_not_over:
  assumes "pool_inv cfg walkErr P fs0 s" and "distinct P"
    and "i < length (workers s)" and "p \<in># holding (workers s ! i)"
    and "(case workers s ! i of Returned q r \<Rightarrow> {q} | _ \<Rightarrow> {}) = {}"
  shows "p \<notin> over s"
proof
  assume "p \<in> over s"
  with holder_unique(1) [OF assms(1-4)] have "p \<in> returned (workers s)"
    by (simp add: over_def)
  with returned_split [OF assms(3)] assms(5)
  obtain j r where j: "j < length (workers s)" "j \<noteq> i" and w: "workers s ! j = Returned p r"
    by auto
  from holder_unique(2) [OF assms(1-4) j] w show False by simp
qed

lemma in_hand_update:
  assumes "\<forall>j < length ws. in_hand cfg fs0 (ws ! j)" and "in_hand cfg fs0 w"
  shows "\<forall>j < length (ws[i := w]). in_hand cfg fs0 ((ws[i := w]) ! j)"
  using assms by (cases "i < length ws") (auto simp: nth_list_update)

lemma pool_det_workers:
  assumes "pool_det cfg fs0 s" and "i < length (workers s)"
    and "in_hand cfg fs0 w"
    and "(case w of Returned q r \<Rightarrow> {q} | _ \<Rightarrow> {}) = (case workers s ! i of Returned q r \<Rightarrow> {q} | _ \<Rightarrow> {})"
  shows "pool_det cfg fs0 (s\<lparr>workers := (workers s)[i := w]\<rparr>)"
proof -
  from returned_same [OF assms(2,4)]
  have "over (s\<lparr>workers := (workers s)[i := w]\<rparr>) = over s" by (simp add: over_def)
  moreover from assms(1,3)
  have "\<forall>j < length ((workers s)[i := w]). in_hand cfg fs0 (((workers s)[i := w]) ! j)"
    by (intro in_hand_update) (simp_all add: pool_det_def)
  ultimately show ?thesis using assms(1) by (simp add: pool_det_def)
qed

lemma pool_det_step:
  assumes "step cfg walkErr s s'" and "pool_inv cfg walkErr P fs0 s" and "distinct P"
    and "pool_det cfg fs0 s"
  shows "pool_det cfg fs0 s'"
  using assms(1)
proof (cases rule: step.cases)
  case (send p ps)
  with assms(4) show ?thesis by (simp add: pool_det_def over_def)
next
  case walkend
  with assms(4) show ?thesis by (simp add: pool_det_def over_def)
next
  case close
  with assms(4) show ?thesis by (simp add: pool_det_def over_def)
next
  case (recv i p ps)
  from pool_det_workers [OF assms(4) recv(2), of "Got p"] recv(3)
  have "pool_det cfg fs0 (s\<lparr>workers := (workers s)[i := Got p]\<rparr>)" by simp
  then show ?thesis unfolding recv(1) by (simp add: pool_det_def over_def)
next
  case (exit i)
  from pool_det_workers [OF assms(4) exit(2), of Exited] exit(3)
  show ?thesis unfolding exit(1) by simp
next
  case (stat i p inp)
  have hp: "p \<in># holding (workers s ! i)" using stat(3) by simp
  have "p \<notin> over s"
    by (rule holder_not_over [OF assms(2,3) stat(2) hp]) (simp add: stat(3))
  with assms(4) have "files (fsys s) p = files fs0 p" by (simp add: pool_det_def)
  then have st: "os_Stat (fsys s) p = os_Stat fs0 p" by (rule os_Stat_local)
  from assms(4) stat(2,3) have "os_ReadFile fs0 p = Inr inp"
    by (auto simp: pool_det_def)
  with st have "in_hand cfg fs0 (Stated p inp (os_Stat (fsys s) p))" by simp
  from pool_det_workers [OF assms(4) stat(2) this] stat(3)
  show ?thesis unfolding stat(1) by simp
next
  case (read i p)
  let ?R = "the_replacer cfg"
  have hp: "p \<in># holding (workers s ! i)" using read(3) by simp
  have nov: "p \<notin> over s"
    by (rule holder_not_over [OF assms(2,3) read(2) hp]) (simp add: read(3))
  with assms(4) have same: "files (fsys s) p = files fs0 p" by (simp add: pool_det_def)
  from assms(2) have "unreadable (fsys s) = unreadable fs0" by (simp add: pool_inv_def)
  from os_ReadFile_local [OF same this]
  have rd: "os_ReadFile (fsys s) p = os_ReadFile fs0 p" .
  show ?thesis
  proof (cases "os_ReadFile fs0 p")
    case (Inr inp)
    with rd have w: "(case os_ReadFile (fsys s) p of Inl err \<Rightarrow> Returned p (Some err)
        | Inr inp \<Rightarrow> Loaded p inp) = Loaded p inp" by simp
    from Inr have "in_hand cfg fs0 (Loaded p inp)" by simp
    from pool_det_workers [OF assms(4) read(2) this] read(3)
    show ?thesis unfolding read(1) w by simp
  next
    case (Inl err)
    with rd have w: "(case os_ReadFile (fsys s) p of Inl err \<Rightarrow> Returned p (Some err)
        | Inr inp \<Rightarrow> Loaded p inp) = Returned p (Some err)" by simp
    from Inl have pf: "processFile p ?R fs0 = (fs0, Some err)"
      by (simp add: processFile_def)
    have ov: "over (s\<lparr>workers := (workers s)[i := Returned p (Some err)]\<rparr>) = insert p (over s)"
      using returned_insert [OF read(2), of p "Some err"] read(3) by (simp add: over_def)
    have B: "\<forall>j < length ((workers s)[i := Returned p (Some err)]).
        in_hand cfg fs0 (((workers s)[i := Returned p (Some err)]) ! j)"
      using assms(4) pf by (intro in_hand_update) (simp_all add: pool_det_def)
    have C: "files (fsys s) q =
        (if q \<in> insert p (over s) then files (fst (processFile q ?R fs0)) q else files fs0 q)" for q
      using assms(4) same pf by (auto simp: pool_det_def)
    show ?thesis
      unfolding read(1) w using assms(4) B C ov by (simp add: pool_det_def)
  qed
next
  case (rewrite i p inp fi fs' r)
  let ?R = "the_replacer cfg"
  have hp: "p \<in># holding (workers s ! i)" using rewrite(3) by simp
  have nov: "p \<notin> over s"
    by (rule holder_not_over [OF assms(2,3) rewrite(2) hp]) (simp add: rewrite(3))
  with assms(4) have same: "files (fsys s) p = files fs0 p" by (simp add: pool_det_def)
  from assms(2) have uw: "unwritable (fsys s) = unwritable fs0" and um: "umask (fsys s) = umask fs0"
    by (simp_all add: pool_inv_def)
  from assms(4) rewrite(2,3) have rd: "os_ReadFile fs0 p = Inr inp" and fi: "fi = os_Stat fs0 p"
    by (auto simp: pool_det_def)
  from rd fi have pf: "processFile p ?R fs0 = finish p ?R inp fi fs0"
    by (simp add: processFile_finish)
  from finish_local [OF same uw um, of ?R inp fi] rewrite(4) pf
  have r: "r = snd (processFile p ?R fs0)"
    and fp: "files fs' p = files (fst (processFile p ?R fs0)) p" by simp_all
  note fr = finish_frame [OF rewrite(4)]
  have ov: "over (s\<lparr>fsys := fs', workers := (workers s)[i := Returned p r]\<rparr>) = insert p (over s)"
    using returned_insert [OF rewrite(2), of p r] rewrite(3) by (simp add: over_def)
  have B: "\<forall>j < length ((workers s)[i := Returned p r]).
      in_hand cfg fs0 (((workers s)[i := Returned p r]) ! j)"
    using assms(4) r by (intro in_hand_update) (simp_all add: pool_det_def)
  have C: "files fs' q =
      (if q \<in> insert p (over s) then files (fst (processFile q ?R fs0)) q else files fs0 q)" for q
  proof (cases "q = p")
    case True
    with fp show ?thesis by simp
  next
    case False
    with fr have "files fs' q = files (fsys s) q" by simp
    with assms(4) False show ?thesis by (simp add: pool_det_def)
  qed
  show ?thesis
    unfolding rewrite(1) using assms(4) B C ov by (simp add: pool_det_def)
next
  case (report i p r)
  let ?R = "the_replacer cfg"
  from assms(4) report(2,3) have r: "r = snd (processFile p ?R fs0)"
    by (auto simp: pool_det_def)
  have "returned ((workers s)[i := Idle]) \<union> {p} = returned (workers s)"
    using returned_update [OF report(2), of Idle] returned_split [OF report(2)] report(3)
    by simp
  then have ov: "fst ` set (processed s @ [(p, r)]) \<union> returned ((workers s)[i := Idle]) = over s"
    by (auto simp: over_def)
  have B: "\<forall>j < length ((workers s)[i := Idle]). in_hand cfg fs0 (((workers s)[i := Idle]) ! j)"
    using assms(4) by (intro in_hand_update) (simp_all add: pool_det_def)
  have A: "\<forall>(q, r') \<in> set (processed s @ [(p, r)]). r' = snd (processFile q ?R fs0)"
    using assms(4) r by (auto simp: pool_det_def)
  show ?thesis
    unfolding report(1) using assms(4) A B ov by (simp add: pool_det_def over_def)
qed

lemma pool_inv_det_steps:
  assumes "(step cfg walkErr)\<^sup>*\<^sup>* s s'" and "pool_inv cfg walkErr P fs0 s" and "distinct P"
    and "pool_det cfg fs0 s"
  shows "pool_inv cfg walkErr P fs0 s' \<and> pool_det cfg fs0 s'"
  using assms
  by (induction rule: rtranclp_induct) (auto intro: pool_inv_step pool_det_step)

lemma returned_replicate_Idle: "returned (replicate n Idle) = {}"
  by (auto simp: returned_def)

lemma pool_det_init: "pool_det cfg fs (init cfg visits fs)"
  by (simp add: pool_det_def init_def over_def returned_replicate_Idle)

lemma returned_all_Exited: "list_all (\<lambda>w. w = Exited) ws \<Longrightarrow> returned ws = {}"
  by (auto simp: returned_def list_all_length)

lemma joined_final:
  assumes "pool_inv cfg walkErr P fs0 s" and "joined s" and "0 < Workers cfg"
  shows "closed s \<and> ended s \<and> chan s = [] \<and> tosend s = [] \<and> held (workers s) = {#}"
proof -
  from assms(1,3) have "workers s \<noteq> []" by (auto simp: pool_inv_def)
  then obtain w ws where ws: "workers s = w # ws" by (cases "workers s") auto
  with assms(2) have "Exited \<in> set (workers s)" by (simp add: joined_def)
  with assms(1) have "closed s" and "ended s" and "chan s = []" and "tosend s = []"
    by (simp_all add: pool_inv_def)
  moreover from assms(2) have "held (workers s) = {#}"
    unfolding joined_def by (rule held_all_Exited)
  ultimately show ?thesis by simp
qed

lemma returns_pool_inv:
  assumes "returns cfg visits fs s"
  shows "pool_inv cfg (snd (walked (FileFilter cfg) visits)) (fst (walked (FileFilter cfg) visits)) fs s"
  using assms pool_inv_steps [OF _ pool_inv_init] unfolding returns_def by blast

lemma returns_pool_det:
  assumes "returns cfg visits fs s" and "distinct (fst (walked (FileFilter cfg) visits))"
  shows "pool_det cfg fs s"
  using assms pool_inv_det_steps [OF _ pool_inv_init _ pool_det_init] unfolding returns_def by blast

lemma returns_processed:
  assumes "returns cfg visits fs s" and "0 < Workers cfg"
  shows "mset (map fst (processed s)) = mset (fst (walked (FileFilter cfg) visits))"
    and "mset (errs s) = mset (concat (map wrapped (processed s)))
           + mset (walk_errs cfg (snd (walked (FileFilter cfg) visits)))"
proof -
  note inv = returns_pool_inv [OF assms(1)]
  from assms(1) have j: "joined s" by (simp add: returns_def)
  note fin = joined_final [OF inv j assms(2)]
  from inv fin show "mset (map fst (processed s)) = mset (fst (walked (FileFilter cfg) visits))"
    by (simp add: pool_inv_def)
  from inv fin show "mset (errs s) = mset (concat (map wrapped (processed s)))
           + mset (walk_errs cfg (snd (walked (FileFilter cfg) visits)))"
    by (simp add: pool_inv_def)
qed

lemma mset_concat_map: "mset (concat (map f xs)) = (\<Sum>x\<in>#mset xs. mset (f x))"
  by (induction xs) auto

lemma returns_files:
  assumes "returns cfg visits fs s" and "0 < Workers cfg"
    and "distinct (fst (walked (FileFilter cfg) visits))"
  shows "files (fsys s) q =
      (if q \<in> set (fst (walked (FileFilter cfg) visits))
       then files (fst (processFile q (the_replacer cfg) fs)) q else files fs q)"
proof -
  note det = returns_pool_det [OF assms(1,3)]
  from assms(1) have "joined s" by (simp add: returns_def)
  then have "returned (workers s) = {}"
    unfolding joined_def by (rule returned_all_Exited)
  moreover from returns_processed(1) [OF assms(1,2)]
  have "set (map fst (processed s)) = set (fst (walked (FileFilter cfg) visits))"
    by (rule mset_eq_setD)
  ultimately have "over s = set (fst (walked (FileFilter cfg) visits))"
    by (simp add: over_def)
  with det show ?thesis by (simp add: pool_det_def)
qed


lemma returns_errs:
  assumes "returns cfg visits fs s" and "0 < Workers cfg"
    and "distinct (fst (walked (FileFilter cfg) visits))"
  shows "mset (errs s) =
      mset (concat (map (\<lambda>p. wrapped (p, snd (processFile p (the_replacer cfg) fs)))
                      (fst (walked (FileFilter cfg) visits))))
      + mset (walk_errs cfg (snd (walked (FileFilter cfg) visits)))"
proof -
  let ?g = "\<lambda>p. (p, snd (processFile p (the_replacer cfg) fs))"
  note det = returns_pool_det [OF assms(1,3)]
  have "map wrapped (processed s) = map (\<lambda>x. wrapped (?g (fst x))) (processed s)"
    by (rule map_cong [OF refl]) (use det in \<open>auto simp: pool_det_def\<close>)
  then have "concat (map wrapped (processed s))
      = concat (map (\<lambda>p. wrapped (?g p)) (map fst (processed s)))"
    by (simp only: map_map comp_def)
  then have "mset (concat (map wrapped (processed s)))
      = (\<Sum>p\<in>#mset (map fst (processed s)). mset (wrapped (?g p)))"
    by (simp only: mset_concat_map)
  also have "\<dots> = (\<Sum>p\<in>#mset (fst (walked (FileFilter cfg) visits)). mset (wrapped (?g p)))"
    by (simp only: returns_processed(1) [OF assms(1,2)])
  also have "\<dots> = mset (concat (map (\<lambda>p. wrapped (?g p)) (fst (walked (FileFilter cfg) visits))))"
    by (simp only: mset_concat_map)
  finally show ?thesis
    using returns_processed(2) [OF assms(1,2)] by simp
qed

lemma returns_outcomes:
  assumes "returns cfg visits fs s"
    and "distinct (fst (walked (FileFilter cfg) visits))" and "(p, r) \<in> set (processed s)"
  shows "r = snd (processFile p (the_replacer cfg) fs)"
  using returns_pool_det [OF assms(1,2)] assms(3) by (auto simp: pool_det_def)

lemma result_None_iff: "result s = None \<longleftrightarrow> errs s = []"
  by (simp add: result_def)

lemma concat_wrapped_Nil:
  "concat (map wrapped ps) = [] \<longleftrightarrow> (\<forall>(p, r) \<in> set ps. r = None)"
  by (induction ps) (auto simp: wrapped_def split: option.splits)


lemma aXb_open_at: "filter (\<lambda>i. prefix ''<::'' (drop i ''a <::X::> b'')) [0..<Suc (length ''a <::X::> b'')] = [2]"
  by code_simp

lemma aXb_close_at: "filter (\<lambda>i. prefix ''::>'' (drop i ''X::> b'')) [0..<Suc (length ''X::> b'')] = [1]"
  by code_simp

lemma aXb_only_key:
  assumes "''a <::X::> b'' = a @ ''<::'' @ k @ ''::>'' @ b"
  shows "k = ''X''"
proof -
  from occurrence_index [OF assms] have la: "length a = 2"
    unfolding aXb_open_at by simp
  from assms have "''<::'' @ k @ ''::>'' @ b = drop (length a) ''a <::X::> b''"
    by (metis append_eq_conv_conj)
  with la have r: "''X::> b'' = k @ ''::>'' @ b" by simp
  from occurrence_index [OF r] have lk: "length k = 1"
    unfolding aXb_close_at by simp
  from r have "k = take (length k) ''X::> b''"
    by (metis append_eq_conv_conj)
  with lk show ?thesis by simp
qed

lemma aXb_unresolved:
  assumes "map_of values ''X'' = None"
  shows "buildNewReplacer ''<::'' ''::>'' values ''a <::X::> b'' = Inl (NotSet ''X'')"
proof -
  have "\<forall>(old, new) \<in> set (pairs ''<::'' ''::>'' values). \<not> sublist old ''a <::X::> b''"
  proof (clarify)
    fix old new
    assume m: "(old, new) \<in> set (pairs ''<::'' ''::>'' values)" and s: "sublist old ''a <::X::> b''"
    from m obtain k where k: "(k, new) \<in> set values" and o: "old = ''<::'' @ k @ ''::>''"
      by (auto simp: pairs_def)
    from s o obtain a b where "''a <::X::> b'' = a @ ''<::'' @ k @ ''::>'' @ b"
      by (auto simp: sublist_def)
    then have "k = ''X''" by (rule aXb_only_key)
    with k have "''X'' \<in> fst ` set values" by force
    with assms show False by (simp add: map_of_eq_None_iff)
  qed
  then have "Replace (pairs ''<::'' ''::>'' values) False ''a <::X::> b'' = ''a <::X::> b''"
    by (rule Replace_no_match)
  then show ?thesis
    by (simp add: buildNewReplacer_def)
qed

lemma walked_example:
  "walked \<lparr>includes = [MatchString yaml_pattern], excludes = [MatchString git_pattern]\<rparr>
     [(''.git'', True, None), (''.git/config.yaml'', False, None), (''a.yaml'', False, None),
      (''b.yaml'', False, None), (''notes.txt'', False, None)]
   = ([''a.yaml'', ''b.yaml''], None)"
  by code_simp

lemma walked_error_example:
  "walked \<lparr>includes = [MatchString yaml_pattern], excludes = [MatchString git_pattern]\<rparr>
     [(''a.yaml'', False, None), (''sub'', True, None),
      (''sub'', True, Some (PathError ''readdir'' ''sub'')), (''z.yaml'', False, None)]
   = ([''a.yaml''], Some (PathError ''readdir'' ''sub''))"
  by code_simp



section \<open>The claims\<close>

text \<open>
  C5. For every content on which the replace operation succeeds, the returned
  \<open>changed\<close> flag is true if and only if at least one placeholder substitution was
  performed on that content: the substitution pass matched at least one pair.
\<close>

theorem changed_iff_substituted:
  assumes "buildNewReplacer openStr closeStr values txt = Inr (out, changed)"
  shows "changed \<longleftrightarrow> substituted (pairs openStr closeStr values) False txt \<noteq> []"
proof
  assume changed
  with assms have "Replace (pairs openStr closeStr values) False txt \<noteq> txt"
    unfolding replacer_Inr_iff by blast
  then show "substituted (pairs openStr closeStr values) False txt \<noteq> []"
    using substituted_Nil_Replace by blast
next
  assume "substituted (pairs openStr closeStr values) False txt \<noteq> []"
  then obtain old new where "(old, new) \<in> set (substituted (pairs openStr closeStr values) False txt)"
    by (cases "substituted (pairs openStr closeStr values) False txt") auto
  from substituted_sublist [OF this]
  have "enclosed openStr closeStr txt" using pairs_enclosed by blast
  moreover from assms have "\<not> enclosed openStr closeStr out" and "changed = (out \<noteq> txt)"
    unfolding replacer_Inr_iff by blast+
  ultimately show changed by auto
qed

theorem changed_iff_substituted_witness:
  "buildNewReplacer ''<::'' ''::>'' [(''NAME'', ''svc''), (''PORT'', ''8080'')]
     ''name: <::NAME::> port: <::PORT::>'' = Inr (''name: svc port: 8080'', True) \<and>
   substituted (pairs ''<::'' ''::>'' [(''NAME'', ''svc''), (''PORT'', ''8080'')]) False
     ''name: <::NAME::> port: <::PORT::>'' \<noteq> [] \<and>
   buildNewReplacer ''<::'' ''::>'' [(''NAME'', ''svc'')] ''name: <::NAME'' =
     Inr (''name: <::NAME'', False) \<and>
   substituted (pairs ''<::'' ''::>'' [(''NAME'', ''svc'')]) False ''name: <::NAME'' = []"
proof -
  have h1: "buildNewReplacer ''<::'' ''::>'' [(''NAME'', ''svc''), (''PORT'', ''8080'')]
     ''name: <::NAME::> port: <::PORT::>'' = Inr (''name: svc port: 8080'', True)"
    by code_simp
  have h2: "buildNewReplacer ''<::'' ''::>'' [(''NAME'', ''svc'')] ''name: <::NAME'' =
     Inr (''name: <::NAME'', False)"
    by code_simp
  from changed_iff_substituted [OF h1] changed_iff_substituted [OF h2] h1 h2
  show ?thesis by simp
qed



text \<open>
  C1, as the code has it. The claim reads: replace fails if and only if some placeholder
  occurrence of the content has a key absent from the mapping. The code never looks a
  key up: it substitutes, then scans the substituted text. So replace fails if and only
  if the text produced by the substitution pass holds the open delimiter followed
  later by the close delimiter; the error then carries the text enclosed between the
  first open delimiter of the substituted text and the first close delimiter after it;
  and a content is returned only when the substituted text holds no such enclosed
  text, the content returned being that substituted text.
\<close>

theorem replace_fails_iff_output_enclosed:
  "((\<exists>e. buildNewReplacer openStr closeStr values txt = Inl e) \<longleftrightarrow>
      enclosed openStr closeStr (Replace (pairs openStr closeStr values) False txt)) \<and>
   (\<forall>e. buildNewReplacer openStr closeStr values txt = Inl e \<longrightarrow>
      (\<exists>a key b. e = NotSet key \<and>
         Replace (pairs openStr closeStr values) False txt = a @ openStr @ key @ closeStr @ b \<and>
         Index (Replace (pairs openStr closeStr values) False txt) openStr = Some (length a) \<and>
         Index (key @ closeStr @ b) closeStr = Some (length key))) \<and>
   (\<forall>out changed. buildNewReplacer openStr closeStr values txt = Inr (out, changed) \<longrightarrow>
      out = Replace (pairs openStr closeStr values) False txt \<and> \<not> enclosed openStr closeStr out)"
proof (intro conjI allI impI)
  show "(\<exists>e. buildNewReplacer openStr closeStr values txt = Inl e) \<longleftrightarrow>
      enclosed openStr closeStr (Replace (pairs openStr closeStr values) False txt)"
    by (rule replacer_Inl_iff)
next
  fix e assume "buildNewReplacer openStr closeStr values txt = Inl e"
  then show "\<exists>a key b. e = NotSet key \<and>
         Replace (pairs openStr closeStr values) False txt = a @ openStr @ key @ closeStr @ b \<and>
         Index (Replace (pairs openStr closeStr values) False txt) openStr = Some (length a) \<and>
         Index (key @ closeStr @ b) closeStr = Some (length key)"
    by (rule replacer_Inl_key)
next
  fix out changed assume "buildNewReplacer openStr closeStr values txt = Inr (out, changed)"
  then show "out = Replace (pairs openStr closeStr values) False txt"
    unfolding replacer_Inr_iff by blast
next
  fix out changed assume "buildNewReplacer openStr closeStr values txt = Inr (out, changed)"
  then show "\<not> enclosed openStr closeStr out"
    unfolding replacer_Inr_iff by blast
qed

theorem replace_fails_iff_output_enclosed_witness:
  "buildNewReplacer ''<::'' ''::>'' [(''A'', ''v'')] ''a <::X::> b'' = Inl (NotSet ''X'') \<and>
   enclosed ''<::'' ''::>'' (Replace (pairs ''<::'' ''::>'' [(''A'', ''v'')]) False ''a <::X::> b'') \<and>
   buildNewReplacer ''<::'' ''::>'' [(''A'', ''v'')] ''a <::A::> b'' = Inr (''a v b'', True) \<and>
   \<not> enclosed ''<::'' ''::>'' ''a v b''"
proof -
  have h1: "buildNewReplacer ''<::'' ''::>'' [(''A'', ''v'')] ''a <::X::> b'' = Inl (NotSet ''X'')"
    by code_simp
  have h2: "buildNewReplacer ''<::'' ''::>'' [(''A'', ''v'')] ''a <::A::> b'' = Inr (''a v b'', True)"
    by code_simp
  from replace_fails_iff_output_enclosed [of "''<::''" "''::>''" "[(''A'', ''v'')]" "''a <::X::> b''"] h1
  have "enclosed ''<::'' ''::>'' (Replace (pairs ''<::'' ''::>'' [(''A'', ''v'')]) False ''a <::X::> b'')"
    by blast
  moreover
  from replace_fails_iff_output_enclosed [of "''<::''" "''::>''" "[(''A'', ''v'')]" "''a <::A::> b''"] h2
  have "\<not> enclosed ''<::'' ''::>'' ''a v b''"
    by blast
  ultimately show ?thesis using h1 h2 by simp
qed

text \<open>
  C1 as stated fails in both directions. With the values \<open>A \<mapsto> <::B::>\<close> and
  \<open>B \<mapsto> x\<close> the only placeholder of \<open><::A::>\<close> is \<open>A\<close>, a key of the
  mapping, and replace fails. With the values \<open>A \<mapsto> q\<close> and \<open>B \<mapsto> x\<close> the
  content \<open><::p<::A::>\<close> has the one placeholder \<open>p<::A\<close>, which is no key of
  the mapping, and replace succeeds.
\<close>

theorem replace_fails_iff_missing_key_counterexample:
  "spec_placeholders ''<::'' ''::>'' ''<::A::>'' = [''A''] \<and>
   map_of [(''A'', ''<::B::>''), (''B'', ''x'')] ''A'' = Some ''<::B::>'' \<and>
   buildNewReplacer ''<::'' ''::>'' [(''A'', ''<::B::>''), (''B'', ''x'')] ''<::A::>'' = Inl (NotSet ''B'') \<and>
   spec_placeholders ''<::'' ''::>'' ''<::p<::A::>'' = [''p<::A''] \<and>
   map_of [(''A'', ''q''), (''B'', ''x'')] ''p<::A'' = None \<and>
   buildNewReplacer ''<::'' ''::>'' [(''A'', ''q''), (''B'', ''x'')] ''<::p<::A::>'' = Inr (''<::pq'', True)"
  by code_simp

text \<open>
  C7, as the code has it. If every occurrence of the close delimiter in the content
  \<open>pre @ open @ rest\<close> lies inside \<open>pre\<close>, the substitution pass copies the bytes
  from that open delimiter to the end unchanged, and replace succeeds with that output
  when it holds no open delimiter followed later by a close delimiter. Whenever the
  text produced by the substitution pass holds an open delimiter followed later by a
  close delimiter, replace fails, and the error carries the text enclosed between the
  first open delimiter and the first close delimiter after it.
\<close>

theorem unterminated_open_passes_through:
  "((\<forall>a b. pre @ openStr @ rest = a @ closeStr @ b \<longrightarrow> length a + length closeStr \<le> length pre) \<longrightarrow>
      Replace (pairs openStr closeStr values) False (pre @ openStr @ rest)
        = Replace (pairs openStr closeStr values) False pre @ openStr @ rest \<and>
      (\<not> enclosed openStr closeStr (Replace (pairs openStr closeStr values) False pre @ openStr @ rest) \<longrightarrow>
         buildNewReplacer openStr closeStr values (pre @ openStr @ rest)
           = Inr (Replace (pairs openStr closeStr values) False pre @ openStr @ rest,
                  Replace (pairs openStr closeStr values) False pre \<noteq> pre))) \<and>
   (enclosed openStr closeStr (Replace (pairs openStr closeStr values) False txt) \<longrightarrow>
      (\<exists>a key b. buildNewReplacer openStr closeStr values txt = Inl (NotSet key) \<and>
         Replace (pairs openStr closeStr values) False txt = a @ openStr @ key @ closeStr @ b \<and>
         Index (Replace (pairs openStr closeStr values) False txt) openStr = Some (length a) \<and>
         Index (key @ closeStr @ b) closeStr = Some (length key)))"
proof (intro conjI impI)
  assume "\<forall>a b. pre @ openStr @ rest = a @ closeStr @ b \<longrightarrow> length a + length closeStr \<le> length pre"
  then show "Replace (pairs openStr closeStr values) False (pre @ openStr @ rest)
        = Replace (pairs openStr closeStr values) False pre @ openStr @ rest"
    by (rule close_before_tail)
next
  assume h: "\<forall>a b. pre @ openStr @ rest = a @ closeStr @ b \<longrightarrow> length a + length closeStr \<le> length pre"
    and ne: "\<not> enclosed openStr closeStr (Replace (pairs openStr closeStr values) False pre @ openStr @ rest)"
  have "Replace (pairs openStr closeStr values) False (pre @ openStr @ rest)
        = Replace (pairs openStr closeStr values) False pre @ openStr @ rest"
    using h by (rule close_before_tail)
  with ne show "buildNewReplacer openStr closeStr values (pre @ openStr @ rest)
           = Inr (Replace (pairs openStr closeStr values) False pre @ openStr @ rest,
                  Replace (pairs openStr closeStr values) False pre \<noteq> pre)"
    by (simp add: replacer_Inr_iff)
next
  assume "enclosed openStr closeStr (Replace (pairs openStr closeStr values) False txt)"
  then show "\<exists>a key b. buildNewReplacer openStr closeStr values txt = Inl (NotSet key) \<and>
         Replace (pairs openStr closeStr values) False txt = a @ openStr @ key @ closeStr @ b \<and>
         Index (Replace (pairs openStr closeStr values) False txt) openStr = Some (length a) \<and>
         Index (key @ closeStr @ b) closeStr = Some (length key)"
    by (rule replacer_enclosed_Inl)
qed

theorem unterminated_open_passes_through_witness:
  "Replace (pairs ''<::'' ''::>'' [(''A'', ''v'')]) False (''x <::A::> '' @ ''<::'' @ ''B'')
     = ''x v '' @ ''<::'' @ ''B'' \<and>
   buildNewReplacer ''<::'' ''::>'' [(''A'', ''v'')] (''x <::A::> '' @ ''<::'' @ ''B'')
     = Inr (''x v <::B'', True) \<and>
   (\<exists>a b. buildNewReplacer ''<::'' ''::>'' [(''A'', ''v'')] ''y <::p::> z'' = Inl (NotSet ''p'') \<and>
      Replace (pairs ''<::'' ''::>'' [(''A'', ''v'')]) False ''y <::p::> z'' = a @ ''<::'' @ ''p'' @ ''::>'' @ b)"
proof -
  let ?vs = "[(''A'', ''v'')]"
  have occ: "\<forall>a b. ''x <::A::> '' @ ''<::'' @ ''B'' = a @ ''::>'' @ b \<longrightarrow> length a + length ''::>'' \<le> length ''x <::A::> ''"
  proof (intro allI impI)
    fix a b assume "''x <::A::> '' @ ''<::'' @ ''B'' = a @ ''::>'' @ (b :: string)"
    from occurrence_index [OF this]
    show "length a + length ''::>'' \<le> length ''x <::A::> ''" by simp
  qed
  have pre: "Replace (pairs ''<::'' ''::>'' ?vs) False ''x <::A::> '' = ''x v ''"
    by code_simp
  have ne: "\<not> enclosed ''<::'' ''::>'' (Replace (pairs ''<::'' ''::>'' ?vs) False ''x <::A::> '' @ ''<::'' @ ''B'')"
    unfolding pre by (rule not_enclosed_by_Index) simp
  have en: "enclosed ''<::'' ''::>'' (Replace (pairs ''<::'' ''::>'' ?vs) False ''y <::p::> z'')"
  proof (rule enclosedI)
    show "Replace (pairs ''<::'' ''::>'' ?vs) False ''y <::p::> z'' = ''y '' @ ''<::'' @ ''p'' @ ''::>'' @ '' z''"
      by code_simp
  qed
  have k: "buildNewReplacer ''<::'' ''::>'' ?vs ''y <::p::> z'' = Inl (NotSet ''p'')"
    by code_simp
  from unterminated_open_passes_through
    [of "''x <::A::> ''" "''<::''" "''B''" "''::>''" ?vs "''y <::p::> z''"] occ ne en
  have "Replace (pairs ''<::'' ''::>'' ?vs) False (''x <::A::> '' @ ''<::'' @ ''B'')
        = Replace (pairs ''<::'' ''::>'' ?vs) False ''x <::A::> '' @ ''<::'' @ ''B''"
    and "buildNewReplacer ''<::'' ''::>'' ?vs (''x <::A::> '' @ ''<::'' @ ''B'')
           = Inr (Replace (pairs ''<::'' ''::>'' ?vs) False ''x <::A::> '' @ ''<::'' @ ''B'',
                  Replace (pairs ''<::'' ''::>'' ?vs) False ''x <::A::> '' \<noteq> ''x <::A::> '')"
    and "\<exists>a key b. buildNewReplacer ''<::'' ''::>'' ?vs ''y <::p::> z'' = Inl (NotSet key) \<and>
         Replace (pairs ''<::'' ''::>'' ?vs) False ''y <::p::> z'' = a @ ''<::'' @ key @ ''::>'' @ b \<and>
         Index (Replace (pairs ''<::'' ''::>'' ?vs) False ''y <::p::> z'') ''<::'' = Some (length a) \<and>
         Index (key @ ''::>'' @ b) ''::>'' = Some (length key)"
    by blast+
  then show ?thesis unfolding pre using k by auto
qed

text \<open>
  C7 as stated fails: in \<open><::X<::A::>\<close> the first open delimiter is followed later by
  a close delimiter, the enclosed text \<open>X<::A\<close> is no key of the mapping, and replace
  succeeds: the bytes \<open><::X\<close> pass through.
\<close>

theorem nested_open_passes_silently_counterexample:
  "''<::X<::A::>'' = [] @ ''<::'' @ ''X<::A'' @ ''::>'' @ [] \<and>
   map_of [(''A'', ''v'')] ''X<::A'' = None \<and>
   buildNewReplacer ''<::'' ''::>'' [(''A'', ''v'')] ''<::X<::A::>'' = Inr (''<::Xv'', True)"
  by code_simp

text \<open>
  C10. There is a content whose every placeholder key is present in the mapping on which
  replace fails, the reported key being a key of the mapping; and one where the
  reported key was never a placeholder of the content. Whenever the substituted text
  holds an open delimiter followed later by a close delimiter, replace returns the
  error, and its key is text of the substituted output. The verdict is a function of
  the substituted output alone: two runs with equal substituted text return the same
  error, whatever their mappings and contents.
\<close>

theorem unresolved_check_scans_output:
  "(\<exists>values txt key.
      (\<forall>k \<in> set (spec_placeholders ''<::'' ''::>'' txt). map_of values k \<noteq> None) \<and>
      buildNewReplacer ''<::'' ''::>'' values txt = Inl (NotSet key) \<and>
      map_of values key \<noteq> None) \<and>
   (\<exists>values txt key.
      (\<forall>k \<in> set (spec_placeholders ''<::'' ''::>'' txt). map_of values k \<noteq> None) \<and>
      buildNewReplacer ''<::'' ''::>'' values txt = Inl (NotSet key) \<and>
      key \<notin> set (spec_placeholders ''<::'' ''::>'' txt) \<and> map_of values key = None) \<and>
   (enclosed openStr closeStr (Replace (pairs openStr closeStr values) False txt) \<longrightarrow>
      (\<exists>a key b. buildNewReplacer openStr closeStr values txt = Inl (NotSet key) \<and>
         Replace (pairs openStr closeStr values) False txt = a @ openStr @ key @ closeStr @ b)) \<and>
   (Replace (pairs openStr closeStr values) False txt = Replace (pairs openStr closeStr values') False txt' \<longrightarrow>
      (\<forall>e. buildNewReplacer openStr closeStr values txt = Inl e \<longleftrightarrow>
           buildNewReplacer openStr closeStr values' txt' = Inl e))"
proof (intro conjI impI allI)
  have "(\<forall>k \<in> set (spec_placeholders ''<::'' ''::>'' ''<::A::>'').
           map_of [(''A'', ''<::B::>''), (''B'', ''x'')] k \<noteq> None) \<and>
      buildNewReplacer ''<::'' ''::>'' [(''A'', ''<::B::>''), (''B'', ''x'')] ''<::A::>'' = Inl (NotSet ''B'') \<and>
      map_of [(''A'', ''<::B::>''), (''B'', ''x'')] ''B'' \<noteq> None"
    by code_simp
  then show "\<exists>values txt key.
      (\<forall>k \<in> set (spec_placeholders ''<::'' ''::>'' txt). map_of values k \<noteq> None) \<and>
      buildNewReplacer ''<::'' ''::>'' values txt = Inl (NotSet key) \<and>
      map_of values key \<noteq> None"
    by blast
next
  have "(\<forall>k \<in> set (spec_placeholders ''<::'' ''::>'' ''<::A::>'').
           map_of [(''A'', ''<::never a key::>'')] k \<noteq> None) \<and>
      buildNewReplacer ''<::'' ''::>'' [(''A'', ''<::never a key::>'')] ''<::A::>''
        = Inl (NotSet ''never a key'') \<and>
      ''never a key'' \<notin> set (spec_placeholders ''<::'' ''::>'' ''<::A::>'') \<and>
      map_of [(''A'', ''<::never a key::>'')] ''never a key'' = None"
    by code_simp
  then show "\<exists>values txt key.
      (\<forall>k \<in> set (spec_placeholders ''<::'' ''::>'' txt). map_of values k \<noteq> None) \<and>
      buildNewReplacer ''<::'' ''::>'' values txt = Inl (NotSet key) \<and>
      key \<notin> set (spec_placeholders ''<::'' ''::>'' txt) \<and> map_of values key = None"
    by blast
next
  assume "enclosed openStr closeStr (Replace (pairs openStr closeStr values) False txt)"
  from replacer_enclosed_Inl [OF this]
  show "\<exists>a key b. buildNewReplacer openStr closeStr values txt = Inl (NotSet key) \<and>
         Replace (pairs openStr closeStr values) False txt = a @ openStr @ key @ closeStr @ b"
    by blast
next
  fix e
  assume "Replace (pairs openStr closeStr values) False txt = Replace (pairs openStr closeStr values') False txt'"
  then show "buildNewReplacer openStr closeStr values txt = Inl e \<longleftrightarrow>
           buildNewReplacer openStr closeStr values' txt' = Inl e"
    by (rule replacer_depends_on_output)
qed

theorem unresolved_check_scans_output_witness:
  "(\<exists>a key b. buildNewReplacer ''<::'' ''::>'' [(''A'', ''<::B::>''), (''B'', ''x'')] ''<::A::>'' = Inl (NotSet key) \<and>
      Replace (pairs ''<::'' ''::>'' [(''A'', ''<::B::>''), (''B'', ''x'')]) False ''<::A::>''
        = a @ ''<::'' @ key @ ''::>'' @ b) \<and>
   buildNewReplacer ''<::'' ''::>'' [] ''<::B::>'' = Inl (NotSet ''B'') \<and>
   buildNewReplacer ''<::'' ''::>'' [(''A'', ''<::B::>''), (''B'', ''x'')] ''<::A::>'' = Inl (NotSet ''B'')"
proof -
  let ?vs = "[(''A'', ''<::B::>''), (''B'', ''x'')]"
  have out: "Replace (pairs ''<::'' ''::>'' ?vs) False ''<::A::>'' = ''<::B::>''"
    by code_simp
  have out': "Replace (pairs ''<::'' ''::>'' []) False ''<::B::>'' = ''<::B::>''"
    by code_simp
  have en: "enclosed ''<::'' ''::>'' (Replace (pairs ''<::'' ''::>'' ?vs) False ''<::A::>'')"
    unfolding out by (rule enclosedI [of _ "[]" _ "''B''" _ "[]"]) simp
  have eq: "Replace (pairs ''<::'' ''::>'' ?vs) False ''<::A::>''
          = Replace (pairs ''<::'' ''::>'' []) False ''<::B::>''"
    unfolding out out' ..
  have k: "buildNewReplacer ''<::'' ''::>'' [] ''<::B::>'' = Inl (NotSet ''B'')"
    by code_simp
  from unresolved_check_scans_output
    [of "''<::''" "''::>''" ?vs "''<::A::>''" "[]" "''<::B::>''"] en eq
  have "\<exists>a key b. buildNewReplacer ''<::'' ''::>'' ?vs ''<::A::>'' = Inl (NotSet key) \<and>
         Replace (pairs ''<::'' ''::>'' ?vs) False ''<::A::>'' = a @ ''<::'' @ key @ ''::>'' @ b"
    and "\<forall>e. buildNewReplacer ''<::'' ''::>'' ?vs ''<::A::>'' = Inl e \<longleftrightarrow>
           buildNewReplacer ''<::'' ''::>'' [] ''<::B::>'' = Inl e"
    by blast+
  with k show ?thesis by simp
qed


text \<open>
  C4. \<open>match\<close> accepts a path if and only if no exclude pattern matches it and
  the include list is empty or some include pattern matches it. With the include
  pattern \<^verbatim>\<open>.*\.yaml$\<close> and the exclude pattern \<^verbatim>\<open>^\.git(/|$)\<close> the path
  \<^verbatim>\<open>.git/config.yaml\<close> matches the include pattern and is rejected.
\<close>

theorem match_iff_not_excluded_and_included:
  "(match f path \<longleftrightarrow>
      \<not> (\<exists>rx \<in> set (excludes f). rx path) \<and>
      (includes f = [] \<or> (\<exists>rx \<in> set (includes f). rx path))) \<and>
   MatchString yaml_pattern ''.git/config.yaml'' \<and>
   \<not> match \<lparr>includes = [MatchString yaml_pattern], excludes = [MatchString git_pattern]\<rparr>
       ''.git/config.yaml''"
proof (intro conjI)
  show "match f path \<longleftrightarrow>
      \<not> (\<exists>rx \<in> set (excludes f). rx path) \<and>
      (includes f = [] \<or> (\<exists>rx \<in> set (includes f). rx path))"
    by (auto simp: match_def any_match_iff)
next
  show "MatchString yaml_pattern ''.git/config.yaml''"
    by code_simp
next
  have "MatchString git_pattern ''.git/config.yaml''"
    by code_simp
  then show "\<not> match \<lparr>includes = [MatchString yaml_pattern], excludes = [MatchString git_pattern]\<rparr>
       ''.git/config.yaml''"
    by (simp add: match_def)
qed

theorem match_iff_not_excluded_and_included_witness:
  "match \<lparr>includes = [MatchString yaml_pattern], excludes = [MatchString git_pattern]\<rparr>
     ''conf/app.yaml'' \<and>
   \<not> match \<lparr>includes = [MatchString yaml_pattern], excludes = [MatchString git_pattern]\<rparr>
     ''conf/app.json'' \<and>
   match \<lparr>includes = [], excludes = [MatchString git_pattern]\<rparr> ''conf/app.json''"
proof -
  have a: "MatchString yaml_pattern ''conf/app.yaml''" "\<not> MatchString git_pattern ''conf/app.yaml''"
    "\<not> MatchString yaml_pattern ''conf/app.json''" "\<not> MatchString git_pattern ''conf/app.json''"
    by code_simp+
  from a
    match_iff_not_excluded_and_included
      [of "\<lparr>includes = [MatchString yaml_pattern], excludes = [MatchString git_pattern]\<rparr>" "''conf/app.yaml''"]
    match_iff_not_excluded_and_included
      [of "\<lparr>includes = [MatchString yaml_pattern], excludes = [MatchString git_pattern]\<rparr>" "''conf/app.json''"]
    match_iff_not_excluded_and_included
      [of "\<lparr>includes = [], excludes = [MatchString git_pattern]\<rparr>" "''conf/app.json''"]
  show ?thesis by simp
qed




text \<open>
  C2. For a readable file whose content is \<^verbatim>\<open>a <::X::> b\<close>, the delimiters
  \<^verbatim>\<open><::\<close> and \<^verbatim>\<open>::>\<close> and a mapping with no entry for \<open>X\<close>:
  \<^verbatim>\<open>processFile\<close> returns the file system it was given, with the error naming
  \<open>X\<close>; and every run of \<^verbatim>\<open>processFiles\<close> whose walk sends the path (each path
  once) ends with the file as it was and returns a joined error that holds the error
  naming \<open>X\<close>.
\<close>

theorem missing_key_leaves_file_untouched:
  assumes "map_of values ''X'' = None" and "files fs path = Some f"
    and "bytes f = ''a <::X::> b''" and "path \<notin> unreadable fs"
  shows "processFile path (buildNewReplacer ''<::'' ''::>'' values) fs
           = (fs, Some (FailedToProcess path (NotSet ''X''))) \<and>
     (\<forall>cfg visits s.
        OpenDelim cfg = ''<::'' \<and> CloseDelim cfg = ''::>'' \<and> KeyMap cfg = values \<and>
        0 < Workers cfg \<and> distinct (fst (walked (FileFilter cfg) visits)) \<and>
        path \<in> set (fst (walked (FileFilter cfg) visits)) \<and> returns cfg visits fs s \<longrightarrow>
        files (fsys s) path = files fs path \<and>
        result s = Some (Join (errs s)) \<and>
        FailedToProcess path (FailedToProcess path (NotSet ''X'')) \<in> set (errs s))"
proof (intro conjI allI impI)
  have rd: "os_ReadFile fs path = Inr ''a <::X::> b''"
    using assms(2,3,4) by (simp add: os_ReadFile_def)
  show pf: "processFile path (buildNewReplacer ''<::'' ''::>'' values) fs
           = (fs, Some (FailedToProcess path (NotSet ''X'')))"
    using rd aXb_unresolved [OF assms(1)] by (simp add: processFile_def)
  fix cfg visits s
  assume a: "OpenDelim cfg = ''<::'' \<and> CloseDelim cfg = ''::>'' \<and> KeyMap cfg = values \<and>
        0 < Workers cfg \<and> distinct (fst (walked (FileFilter cfg) visits)) \<and>
        path \<in> set (fst (walked (FileFilter cfg) visits)) \<and> returns cfg visits fs s"
  then have R: "the_replacer cfg = buildNewReplacer ''<::'' ''::>'' values"
    by (simp add: the_replacer_def)
  from a have w: "0 < Workers cfg" and d: "distinct (fst (walked (FileFilter cfg) visits))"
    and m: "path \<in> set (fst (walked (FileFilter cfg) visits))" and r: "returns cfg visits fs s"
    by simp_all
  from returns_files [OF r w d, of path] m pf R
  show "files (fsys s) path = files fs path" by simp
  have "FailedToProcess path (FailedToProcess path (NotSet ''X''))
      \<in> set (wrapped (path, snd (processFile path (the_replacer cfg) fs)))"
    using pf R by (simp add: wrapped_def)
  with m have "FailedToProcess path (FailedToProcess path (NotSet ''X''))
      \<in> set (concat (map (\<lambda>p. wrapped (p, snd (processFile p (the_replacer cfg) fs)))
                      (fst (walked (FileFilter cfg) visits))))"
    by auto
  then have "FailedToProcess path (FailedToProcess path (NotSet ''X''))
      \<in># mset (concat (map (\<lambda>p. wrapped (p, snd (processFile p (the_replacer cfg) fs)))
                      (fst (walked (FileFilter cfg) visits))))"
    by simp
  then have "FailedToProcess path (FailedToProcess path (NotSet ''X'')) \<in># mset (errs s)"
    unfolding returns_errs [OF r w d] by simp
  then show e: "FailedToProcess path (FailedToProcess path (NotSet ''X'')) \<in> set (errs s)"
    by simp
  then have "errs s \<noteq> []" by auto
  then show "result s = Some (Join (errs s))" by (simp add: result_def)
qed

theorem missing_key_leaves_file_untouched_witness:
  "processFile ''a.yaml'' (buildNewReplacer ''<::'' ''::>'' [(''NAME'', ''svc'')])
     \<lparr>files = [''a.yaml'' \<mapsto> \<lparr>bytes = ''a <::X::> b'', mode = 420\<rparr>],
      unreadable = {}, unwritable = {}, umask = 18\<rparr>
   = (\<lparr>files = [''a.yaml'' \<mapsto> \<lparr>bytes = ''a <::X::> b'', mode = 420\<rparr>],
       unreadable = {}, unwritable = {}, umask = 18\<rparr>,
      Some (FailedToProcess ''a.yaml'' (NotSet ''X''))) \<and>
   (\<exists>s. returns
          \<lparr>OpenDelim = ''<::'', CloseDelim = ''::>'', TargetDir = ''.'', Workers = 2,
           FileFilter = \<lparr>includes = [MatchString yaml_pattern], excludes = [MatchString git_pattern]\<rparr>,
           KeyMap = [(''NAME'', ''svc'')]\<rparr>
          [(''.git'', True, None), (''.git/config.yaml'', False, None), (''a.yaml'', False, None),
           (''b.yaml'', False, None), (''notes.txt'', False, None)]
          \<lparr>files = [''a.yaml'' \<mapsto> \<lparr>bytes = ''a <::X::> b'', mode = 420\<rparr>],
           unreadable = {}, unwritable = {}, umask = 18\<rparr> s \<and>
        files (fsys s) ''a.yaml'' = Some \<lparr>bytes = ''a <::X::> b'', mode = 420\<rparr> \<and>
        result s = Some (Join (errs s)) \<and>
        FailedToProcess ''a.yaml'' (FailedToProcess ''a.yaml'' (NotSet ''X'')) \<in> set (errs s))"
proof -
  let ?fs = "\<lparr>files = [''a.yaml'' \<mapsto> \<lparr>bytes = ''a <::X::> b'', mode = (420 :: FileMode)\<rparr>],
      unreadable = {}, unwritable = {}, umask = (18 :: FileMode)\<rparr>"
  let ?ff = "\<lparr>includes = [MatchString yaml_pattern], excludes = [MatchString git_pattern]\<rparr>"
  let ?cfg = "\<lparr>OpenDelim = ''<::'', CloseDelim = ''::>'', TargetDir = ''.'', Workers = 2,
           FileFilter = ?ff, KeyMap = [(''NAME'', ''svc'')]\<rparr>"
  let ?vis = "[(''.git'', True, None), (''.git/config.yaml'', False, None), (''a.yaml'', False, None),
           (''b.yaml'', False, None), (''notes.txt'', False, None)] :: visit list"
  have h1: "map_of [(''NAME'', ''svc'')] ''X'' = None" by simp
  have h2: "files ?fs ''a.yaml'' = Some \<lparr>bytes = ''a <::X::> b'', mode = 420\<rparr>" by simp
  have h3: "bytes \<lparr>bytes = ''a <::X::> b'', mode = (420 :: FileMode)\<rparr> = ''a <::X::> b''" by simp
  have h4: "''a.yaml'' \<notin> unreadable ?fs" by simp
  note inst = missing_key_leaves_file_untouched [OF h1 h2 h3 h4]
  obtain s where s: "returns ?cfg ?vis ?fs s"
    using returns_exists [of ?cfg ?vis ?fs] by auto
  have fw: "walked (FileFilter ?cfg) ?vis = ([''a.yaml'', ''b.yaml''], None)"
    using walked_example by (simp del: walked.simps)
  have "OpenDelim ?cfg = ''<::'' \<and> CloseDelim ?cfg = ''::>'' \<and> KeyMap ?cfg = [(''NAME'', ''svc'')] \<and>
        0 < Workers ?cfg \<and> distinct (fst (walked (FileFilter ?cfg) ?vis)) \<and>
        ''a.yaml'' \<in> set (fst (walked (FileFilter ?cfg) ?vis)) \<and> returns ?cfg ?vis ?fs s"
    using s unfolding fw by simp
  with inst have "files (fsys s) ''a.yaml'' = files ?fs ''a.yaml'' \<and>
        result s = Some (Join (errs s)) \<and>
        FailedToProcess ''a.yaml'' (FailedToProcess ''a.yaml'' (NotSet ''X'')) \<in> set (errs s)"
    by blast
  moreover note conjunct1 [OF inst] s
  ultimately show ?thesis by (intro conjI exI [of _ s]) simp_all
qed

text \<open>
  C8. With a positive worker count a run of \<^verbatim>\<open>processFiles\<close> returns, no run
  is stuck before it returns, and in every state in which one returns: a worker has
  called \<^verbatim>\<open>processFile\<close> on every path the walker sent, once per path sent,
  whatever the earlier calls returned; the collected errors are, as a multiset, the
  wrapped error of every call that returned one, plus the walk error if there is one;
  the result is nil if and only if no call returned an error and the walk returned
  none, and otherwise the join of the collected errors.
\<close>

theorem processFiles_collects_every_error:
  assumes "0 < Workers cfg"
  shows "(\<exists>s. returns cfg visits fs s) \<and>
     (\<forall>s. (step cfg (snd (walked (FileFilter cfg) visits)))\<^sup>*\<^sup>* (init cfg visits fs) s \<and> \<not> joined s \<longrightarrow>
        (\<exists>s'. step cfg (snd (walked (FileFilter cfg) visits)) s s')) \<and>
     (\<forall>s. returns cfg visits fs s \<longrightarrow>
        mset (map fst (processed s)) = mset (fst (walked (FileFilter cfg) visits)) \<and>
        mset (errs s) = mset (concat (map wrapped (processed s)))
           + mset (walk_errs cfg (snd (walked (FileFilter cfg) visits))) \<and>
        (result s = None \<longleftrightarrow>
           (\<forall>(p, r) \<in> set (processed s). r = None) \<and> snd (walked (FileFilter cfg) visits) = None) \<and>
        (result s \<noteq> None \<longrightarrow> result s = Some (Join (errs s))))"
proof (intro conjI allI impI)
  show "\<exists>s. returns cfg visits fs s" by (rule returns_exists [OF assms])
next
  fix s
  assume "(step cfg (snd (walked (FileFilter cfg) visits)))\<^sup>*\<^sup>* (init cfg visits fs) s \<and> \<not> joined s"
  then have "\<not> joined s" by simp
  then show "\<exists>s'. step cfg (snd (walked (FileFilter cfg) visits)) s s'"
    using assms by (rule progress)
next
  fix s assume r: "returns cfg visits fs s"
  show "mset (map fst (processed s)) = mset (fst (walked (FileFilter cfg) visits))"
    by (rule returns_processed(1) [OF r assms])
next
  fix s assume r: "returns cfg visits fs s"
  show "mset (errs s) = mset (concat (map wrapped (processed s)))
           + mset (walk_errs cfg (snd (walked (FileFilter cfg) visits)))"
    by (rule returns_processed(2) [OF r assms])
next
  fix s assume r: "returns cfg visits fs s"
  have "errs s = [] \<longleftrightarrow> mset (errs s) = {#}" by simp
  also have "\<dots> \<longleftrightarrow> concat (map wrapped (processed s)) = [] \<and>
      walk_errs cfg (snd (walked (FileFilter cfg) visits)) = []"
    by (simp add: returns_processed(2) [OF r assms])
  also have "\<dots> \<longleftrightarrow> (\<forall>(p, r) \<in> set (processed s). r = None) \<and>
      snd (walked (FileFilter cfg) visits) = None"
    unfolding concat_wrapped_Nil by (simp add: walk_errs_def split: option.splits)
  finally show "result s = None \<longleftrightarrow>
           (\<forall>(p, r) \<in> set (processed s). r = None) \<and> snd (walked (FileFilter cfg) visits) = None"
    by (simp add: result_None_iff)
next
  fix s assume "result s \<noteq> None"
  then show "result s = Some (Join (errs s))"
    by (simp add: result_def split: if_splits)
qed

theorem processFiles_collects_every_error_witness:
  "\<exists>s. returns
          \<lparr>OpenDelim = ''<::'', CloseDelim = ''::>'', TargetDir = ''.'', Workers = 2,
           FileFilter = \<lparr>includes = [MatchString yaml_pattern], excludes = [MatchString git_pattern]\<rparr>,
           KeyMap = [(''NAME'', ''svc'')]\<rparr>
          [(''a.yaml'', False, None), (''sub'', True, None),
           (''sub'', True, Some (PathError ''readdir'' ''sub'')), (''z.yaml'', False, None)]
          \<lparr>files = [''a.yaml'' \<mapsto> \<lparr>bytes = ''name: <::NAME::>'', mode = 420\<rparr>],
           unreadable = {}, unwritable = {}, umask = 18\<rparr> s \<and>
        mset (map fst (processed s)) = {#''a.yaml''#} \<and>
        result s = Some (Join (errs s))"
proof -
  let ?fs = "\<lparr>files = [''a.yaml'' \<mapsto> \<lparr>bytes = ''name: <::NAME::>'', mode = (420 :: FileMode)\<rparr>],
      unreadable = {}, unwritable = {}, umask = (18 :: FileMode)\<rparr>"
  let ?ff = "\<lparr>includes = [MatchString yaml_pattern], excludes = [MatchString git_pattern]\<rparr>"
  let ?cfg = "\<lparr>OpenDelim = ''<::'', CloseDelim = ''::>'', TargetDir = ''.'', Workers = 2,
           FileFilter = ?ff, KeyMap = [(''NAME'', ''svc'')]\<rparr>"
  let ?vis = "[(''a.yaml'', False, None), (''sub'', True, None),
           (''sub'', True, Some (PathError ''readdir'' ''sub'')), (''z.yaml'', False, None)] :: visit list"
  have w: "0 < Workers ?cfg" by simp
  have fw: "walked (FileFilter ?cfg) ?vis = ([''a.yaml''], Some (PathError ''readdir'' ''sub''))"
    using walked_error_example by (simp del: walked.simps)
  note inst = processFiles_collects_every_error [OF w, of ?vis ?fs]
  from conjunct1 [OF inst] obtain s where s: "returns ?cfg ?vis ?fs s" ..
  from conjunct2 [OF conjunct2 [OF inst]] s have
    p: "mset (map fst (processed s)) = mset (fst (walked (FileFilter ?cfg) ?vis))"
    and n: "result s = None \<longleftrightarrow>
           (\<forall>(p, r) \<in> set (processed s). r = None) \<and> snd (walked (FileFilter ?cfg) ?vis) = None"
    and j: "result s \<noteq> None \<longrightarrow> result s = Some (Join (errs s))"
    by blast+
  from p have "mset (map fst (processed s)) = {#''a.yaml''#}"
    unfolding fw by simp
  moreover from n have "result s \<noteq> None"
    unfolding fw by simp
  with j have "result s = Some (Join (errs s))" by blast
  ultimately have "returns ?cfg ?vis ?fs s \<and> mset (map fst (processed s)) = {#''a.yaml''#} \<and>
      result s = Some (Join (errs s))"
    using s by blast
  then show ?thesis by (rule exI)

qed




end
